theory Spec2Isabelle
  imports Complex_Main
begin

section \<open>Conventions of the embedding\<close>

text \<open>
  The development embeds the class \<open>ChebyshevExpansion\<close> of \<^verbatim>\<open>main.cpp\<close> and the inline
  bodies of \<^verbatim>\<open>include/ChebTools/ChebTools.h\<close>.

  \<^item> A \<open>double\<close> is a \<open>real\<close>: rounding is not modelled, so every equation below is
    an equation of exact arithmetic. Where the C++ would compute a non-finite value
    that decides a branch (the square root of a negative number, a division by zero
    in \<open>real_roots_approx\<close>), the model says so with \<open>None\<close>. The other two
    quotients of the class, by \<open>xmax - xmin\<close> and by \<open>2 c[N]\<close>, are quotients of
    real numbers, and the theorems about them assume a divisor that is not zero.
  \<^item> An \<open>Eigen::VectorXd\<close> is a list, an \<open>Eigen::MatrixXd\<close> a record of its two
    dimensions and its coefficients in column-major order, as Eigen stores them.
  \<^item> Every access Eigen guards with \<open>eigen_assert\<close> (a coefficient, a column or a
    block out of range, operands of different sizes) returns \<open>Inl EigenAssert\<close> when
    the guard fails (without assertions the access is undefined behaviour); the
    \<open>throw\<close> of \<open>operator+\<close> is \<open>Inl LengthsNotSame\<close>.
  \<^item> Member functions that write to the scratch buffers of the object return the
    updated object next to their result.
  \<^item> Library routines whose code is not part of the repository (the eigenvalue solver,
    the QR solver) are parameters of the functions that call them.
  \<^item> \<open>std::size_t\<close> is \<open>nat\<close>. A subtraction can wrap around (\<open>size() - 1\<close> on an
    empty vector, \<open>N - 2\<close> for \<open>N < 2\<close>), which \<open>size_t_sub\<close> writes out. The model
    is one of vectors of fewer than \<open>2 ^ 31\<close> coefficients: the \<open>int\<close> loop counters
    that run over them do not overflow, and sums of sizes are sums of natural numbers.
\<close>

section \<open>Errors and loops\<close>

datatype error = EigenAssert | LengthsNotSame

definition bindE :: "error + 'a \<Rightarrow> ('a \<Rightarrow> error + 'b) \<Rightarrow> error + 'b" where
  "bindE m f = (case m of Inl err \<Rightarrow> Inl err | Inr v \<Rightarrow> f v)"

text \<open>\<^verbatim>\<open>for (n = lo; n < hi; ++n) body\<close>, stopping at the first failure.\<close>

function for_loop :: "nat \<Rightarrow> nat \<Rightarrow> (nat \<Rightarrow> 's \<Rightarrow> error + 's) \<Rightarrow> 's \<Rightarrow> error + 's" where
  "for_loop n hi body s =
     (if n < hi
      then (case body n s of Inl err \<Rightarrow> Inl err | Inr s' \<Rightarrow> for_loop (Suc n) hi body s')
      else Inr s)"
  by pat_completeness auto
termination
  by (relation "measure (\<lambda>(n, hi, body, s). hi - n)") auto

declare for_loop.simps [simp del]

text \<open>Subtraction of two \<open>std::size_t\<close> values (64 bits).\<close>

definition size_t_sub :: "nat \<Rightarrow> nat \<Rightarrow> nat" where
  "size_t_sub a b = (if b \<le> a then a - b else a + 2 ^ 64 - b)"

section \<open>Eigen vectors\<close>

type_synonym vectype = "real list"

text \<open>\<open>v(i)\<close> read and written; Eigen asserts \<open>0 \<le> i < size\<close>.\<close>

definition v_read :: "vectype \<Rightarrow> nat \<Rightarrow> error + real" where
  "v_read v i = (if i < length v then Inr (v ! i) else Inl EigenAssert)"

definition v_write :: "vectype \<Rightarrow> nat \<Rightarrow> real \<Rightarrow> error + vectype" where
  "v_write v i x = (if i < length v then Inr (v[i := x]) else Inl EigenAssert)"

text \<open>
  \<open>v.resize(n)\<close>: nothing happens when the size stays; otherwise Eigen frees the old
  storage and allocates \<open>n\<close> cells that it does not initialise. \<open>fresh\<close> is what the
  new cells happen to hold.
\<close>

definition VectorXd_resize :: "(nat \<Rightarrow> real) \<Rightarrow> nat \<Rightarrow> vectype \<Rightarrow> vectype" where
  "VectorXd_resize fresh n v = (if n = length v then v else map fresh [0..<n])"

text \<open>\<open>a.dot(b)\<close>; Eigen asserts that the sizes agree.\<close>

definition dot :: "vectype \<Rightarrow> vectype \<Rightarrow> error + real" where
  "dot a b = (if length a = length b then Inr (sum_list (map2 (*) a b)) else Inl EigenAssert)"

section \<open>Eigen matrices\<close>

record matrix =
  nrows :: nat
  ncols :: nat
  m_data :: "real list"

text \<open>The coefficient \<open>(i, j)\<close> in column-major storage, unchecked.\<close>

definition coeff :: "matrix \<Rightarrow> nat \<Rightarrow> nat \<Rightarrow> real" where
  "coeff A i j = m_data A ! (i + j * nrows A)"

definition matrix_of_fun :: "nat \<Rightarrow> nat \<Rightarrow> (nat \<Rightarrow> nat \<Rightarrow> real) \<Rightarrow> matrix" where
  "matrix_of_fun r c f =
     \<lparr>nrows = r, ncols = c, m_data = map (\<lambda>p. f (p mod r) (p div r)) [0..<r * c]\<rparr>"

text \<open>\<open>Eigen::MatrixXd::Zero(rows, cols)\<close>.\<close>

definition MatrixXd_Zero :: "nat \<Rightarrow> nat \<Rightarrow> matrix" where
  "MatrixXd_Zero r c = \<lparr>nrows = r, ncols = c, m_data = replicate (r * c) 0\<rparr>"

text \<open>\<open>A.resize(rows, cols)\<close>: the coefficients survive only when their number stays.\<close>

definition MatrixXd_resize :: "nat \<Rightarrow> nat \<Rightarrow> matrix \<Rightarrow> matrix" where
  "MatrixXd_resize r c A =
     \<lparr>nrows = r, ncols = c,
      m_data = (if r * c = length (m_data A) then m_data A else replicate (r * c) 0)\<rparr>"

text \<open>\<open>A(i, j)\<close> read and written; Eigen asserts that both indices are in range.\<close>

definition m_read :: "matrix \<Rightarrow> nat \<Rightarrow> nat \<Rightarrow> error + real" where
  "m_read A i j = (if i < nrows A \<and> j < ncols A then Inr (coeff A i j) else Inl EigenAssert)"

definition m_write :: "matrix \<Rightarrow> nat \<Rightarrow> nat \<Rightarrow> real \<Rightarrow> error + matrix" where
  "m_write A i j x =
     (if i < nrows A \<and> j < ncols A
      then Inr (A\<lparr>m_data := (m_data A)[i + j * nrows A := x]\<rparr>)
      else Inl EigenAssert)"

text \<open>\<open>A.col(j)\<close> read, assigned and filled; Eigen asserts \<open>0 \<le> j < cols\<close> and, for
  the assignment, that the right-hand side has as many entries as the column.\<close>

definition col_read :: "matrix \<Rightarrow> nat \<Rightarrow> error + vectype" where
  "col_read A j =
     (if j < ncols A then Inr (map (\<lambda>i. coeff A i j) [0..<nrows A]) else Inl EigenAssert)"

definition col_assign :: "matrix \<Rightarrow> nat \<Rightarrow> vectype \<Rightarrow> error + matrix" where
  "col_assign A j xs =
     (if j < ncols A \<and> length xs = nrows A
      then Inr (matrix_of_fun (nrows A) (ncols A)
                  (\<lambda>i k. if k = j then xs ! i else coeff A i k))
      else Inl EigenAssert)"

definition col_fill :: "matrix \<Rightarrow> nat \<Rightarrow> real \<Rightarrow> error + matrix" where
  "col_fill A j x = col_assign A j (replicate (nrows A) x)"

text \<open>The product \<open>A * v\<close> of a matrix and a vector; Eigen asserts \<open>cols = size\<close>.\<close>

definition mat_vec :: "matrix \<Rightarrow> vectype \<Rightarrow> error + vectype" where
  "mat_vec A v =
     (if ncols A = length v
      then Inr (map (\<lambda>i. sum_list (map (\<lambda>k. coeff A i k * v ! k) [0..<ncols A])) [0..<nrows A])
      else Inl EigenAssert)"

section \<open>The class ChebyshevExpansion of main.cpp\<close>

record ChebyshevExpansion =
  m_xmin :: real
  m_xmax :: real
  m_c :: vectype
  m_recurrence_buffer :: vectype
  m_recurrence_buffer_matrix :: matrix

text \<open>
  The private \<open>resize()\<close>. The cells of the scratch buffer are never read before they
  are written, so the model fills new cells with \<open>0\<close>.
\<close>

definition resize :: "ChebyshevExpansion \<Rightarrow> ChebyshevExpansion" where
  "resize e = e\<lparr>m_recurrence_buffer :=
                   VectorXd_resize (\<lambda>_. 0) (length (m_c e)) (m_recurrence_buffer e)\<rparr>"

text \<open>
  The constructors: all three store their arguments and call \<open>resize()\<close>; none of them
  has a \<open>throw\<close> or a check of the bounds. The default arguments \<open>xmin = -1\<close> and
  \<open>xmax = 1\<close> are written out at the calls that rely on them.
\<close>

definition ChebyshevExpansion :: "vectype \<Rightarrow> real \<Rightarrow> real \<Rightarrow> ChebyshevExpansion" where
  "ChebyshevExpansion c xmin xmax =
     resize \<lparr>m_xmin = xmin, m_xmax = xmax, m_c = c, m_recurrence_buffer = [],
             m_recurrence_buffer_matrix = \<lparr>nrows = 0, ncols = 0, m_data = []\<rparr>\<rparr>"

definition coef :: "ChebyshevExpansion \<Rightarrow> vectype" where
  "coef e = m_c e"

subsection \<open>Arithmetic operators\<close>

text \<open>
  \<^verbatim>\<open>operator+\<close>: throws when the lengths differ (its comment reads: TODO: when m_c and
  ce2.coef() not the same size, resize shorter one and pad the longer one); the result
  is built with the default domain.
\<close>

definition operator_plus :: "ChebyshevExpansion \<Rightarrow> ChebyshevExpansion \<Rightarrow> error + ChebyshevExpansion" where
  "operator_plus e ce2 =
     (if length (m_c e) \<noteq> length (coef ce2) then Inl LengthsNotSame
      else Inr (ChebyshevExpansion (map2 (+) (coef ce2) (m_c e)) (- 1) 1))"

text \<open>
  \<^verbatim>\<open>operator+=\<close>: the first \<open>Nmin\<close> coefficients are summed in place; when the donor is
  longer, \<open>m_c.resize(Ndonor)\<close> reallocates \<open>m_c\<close> and the tail of the donor is copied
  into its last \<open>Nmax - Nmin\<close> cells. The scratch buffer is not resized.
\<close>

definition operator_plus_assign ::
  "(nat \<Rightarrow> real) \<Rightarrow> ChebyshevExpansion \<Rightarrow> ChebyshevExpansion \<Rightarrow> ChebyshevExpansion" where
  "operator_plus_assign fresh e donor =
     (let Ndonor = length (coef donor); N1 = length (m_c e);
          Nmin = min N1 Ndonor; Nmax = max N1 Ndonor;
          c1 = map2 (+) (take Nmin (m_c e)) (take Nmin (coef donor)) @ drop Nmin (m_c e)
      in if Ndonor > N1
         then (let c2 = VectorXd_resize fresh Ndonor c1
               in e\<lparr>m_c := take (Ndonor - (Nmax - Nmin)) c2
                            @ drop (Ndonor - (Nmax - Nmin)) (coef donor)\<rparr>)
         else e\<lparr>m_c := c1\<rparr>)"

text \<open>\<^verbatim>\<open>operator*(double)\<close>, \<^verbatim>\<open>operator*=\<close> and the friend \<^verbatim>\<open>operator*(double, ce)\<close> of
  main.cpp. Both value-returning forms call the constructor with the coefficients only.\<close>

definition operator_times :: "ChebyshevExpansion \<Rightarrow> real \<Rightarrow> ChebyshevExpansion" where
  "operator_times e val = ChebyshevExpansion (map (\<lambda>a. a * val) (m_c e)) (- 1) 1"

definition operator_times_assign :: "ChebyshevExpansion \<Rightarrow> real \<Rightarrow> ChebyshevExpansion" where
  "operator_times_assign e val = e\<lparr>m_c := map (\<lambda>a. a * val) (m_c e)\<rparr>"

definition operator_times_friend :: "real \<Rightarrow> ChebyshevExpansion \<Rightarrow> ChebyshevExpansion" where
  "operator_times_friend val ce = ChebyshevExpansion (map (\<lambda>a. a * val) (coef ce)) (- 1) 1"

text \<open>The friend \<^verbatim>\<open>operator*(double, ce)\<close> of ChebTools.h passes the bounds on.\<close>

definition ChebTools_operator_times_friend :: "real \<Rightarrow> ChebyshevExpansion \<Rightarrow> ChebyshevExpansion" where
  "ChebTools_operator_times_friend val ce =
     ChebyshevExpansion (map (\<lambda>a. a * val) (coef ce)) (m_xmin ce) (m_xmax ce)"

subsection \<open>Evaluation\<close>

text \<open>The body of the loop of \<open>y\<close>: \<^verbatim>\<open>o(n+1) = 2*xscaled*o(n) - o(n-1)\<close>.\<close>

definition recurrence_step :: "real \<Rightarrow> nat \<Rightarrow> vectype \<Rightarrow> error + vectype" where
  "recurrence_step xscaled n ob =
     bindE (v_read ob n) (\<lambda>on.
     bindE (v_read ob (n - 1)) (\<lambda>on1.
     v_write ob (n + 1) (2 * xscaled * on - on1)))"

text \<open>
  \<^verbatim>\<open>double y(const double x)\<close>: the three-term recurrence in the scratch buffer, then
  the dot product with the coefficients. \<open>Norder\<close> is \<open>m_c.size() - 1\<close> as a
  \<open>std::size_t\<close>.
\<close>

definition y_double :: "ChebyshevExpansion \<Rightarrow> real \<Rightarrow> error + (real \<times> ChebyshevExpansion)" where
  "y_double e x =
     (let Norder = size_t_sub (length (m_c e)) 1;
          xscaled = (2 * x - (m_xmax e + m_xmin e)) / (m_xmax e - m_xmin e)
      in bindE (v_write (m_recurrence_buffer e) 0 1) (\<lambda>o0.
         bindE (v_write o0 1 xscaled) (\<lambda>o1.
         bindE (for_loop 1 Norder (recurrence_step xscaled) o1) (\<lambda>o2.
         bindE (dot (m_c e) o2) (\<lambda>r.
         Inr (r, e\<lparr>m_recurrence_buffer := o2\<rparr>))))))"

text \<open>The body of the loop of \<open>y_xscaled\<close>:
  \<^verbatim>\<open>A.col(n+1).array() = 2*xscaled.array()*A.col(n).array() - A.col(n-1).array()\<close>.\<close>

definition column_recurrence_step :: "vectype \<Rightarrow> nat \<Rightarrow> matrix \<Rightarrow> error + matrix" where
  "column_recurrence_step xscaled n A =
     bindE (col_read A n) (\<lambda>cn.
     bindE (col_read A (n - 1)) (\<lambda>cn1.
     col_assign A (n + 1)
       (map (\<lambda>i. 2 * xscaled ! i * cn ! i - cn1 ! i) [0..<length xscaled])))"

text \<open>
  \<^verbatim>\<open>vectype y_xscaled(const vectype &xscaled)\<close>: column \<open>n\<close> of the buffer matrix holds
  the \<open>n\<close>-th basis polynomial at every abscissa; the result is the product of the
  matrix and the coefficients.
\<close>

definition y_xscaled :: "ChebyshevExpansion \<Rightarrow> vectype \<Rightarrow> error + (vectype \<times> ChebyshevExpansion)" where
  "y_xscaled e xscaled =
     (let Norder = size_t_sub (length (m_c e)) 1;
          A0 = MatrixXd_resize (length xscaled) (Norder + 1) (m_recurrence_buffer_matrix e)
      in bindE (col_fill A0 0 1) (\<lambda>A1.
         bindE (col_assign A1 1 xscaled) (\<lambda>A2.
         bindE (for_loop 1 Norder (column_recurrence_step xscaled) A2) (\<lambda>A3.
         bindE (mat_vec A3 (m_c e)) (\<lambda>r.
         Inr (r, e\<lparr>m_recurrence_buffer_matrix := A3\<rparr>))))))"

text \<open>\<^verbatim>\<open>vectype y(const vectype &x)\<close>: scale every abscissa, then call \<open>y_xscaled\<close>.\<close>

definition y_vectype :: "ChebyshevExpansion \<Rightarrow> vectype \<Rightarrow> error + (vectype \<times> ChebyshevExpansion)" where
  "y_vectype e x =
     y_xscaled e (map (\<lambda>xi. (2 * xi - (m_xmax e + m_xmin e)) / (m_xmax e - m_xmin e)) x)"

subsection \<open>Companion matrix and roots\<close>

text \<open>The bodies of the two loops of \<open>companion_matrix\<close>:
  \<^verbatim>\<open>A(N - 1, k) -= m_c(k)/(2.0*m_c(N))\<close>, and
  \<^verbatim>\<open>A(j, j-1) = 0.5; A(j, j+1) = 0.5\<close>. \<open>N - 1\<close> is a \<open>std::size_t\<close> subtraction.\<close>

definition last_row_step :: "vectype \<Rightarrow> nat \<Rightarrow> nat \<Rightarrow> matrix \<Rightarrow> error + matrix" where
  "last_row_step c N k A =
     bindE (m_read A (size_t_sub N 1) k) (\<lambda>a.
     bindE (v_read c k) (\<lambda>ck.
     bindE (v_read c N) (\<lambda>cN.
     m_write A (size_t_sub N 1) k (a - ck / (2 * cN)))))"

definition other_rows_step :: "nat \<Rightarrow> matrix \<Rightarrow> error + matrix" where
  "other_rows_step j A =
     bindE (m_write A j (j - 1) (1 / 2)) (\<lambda>A'.
     m_write A' j (j + 1) (1 / 2))"

text \<open>\<^verbatim>\<open>companion_matrix()\<close>, statement by statement.\<close>

definition companion_matrix :: "ChebyshevExpansion \<Rightarrow> error + matrix" where
  "companion_matrix e =
     (let N = size_t_sub (length (m_c e)) 1;
          A0 = MatrixXd_Zero N N
      in bindE (m_write A0 0 1 1) (\<lambda>A1.
         bindE (m_write A1 (size_t_sub N 1) (size_t_sub N 2) (1 / 2)) (\<lambda>A2.
         bindE (for_loop 0 N (last_row_step (m_c e) N) A2) (\<lambda>A3.
         for_loop 1 (size_t_sub N 1) other_rows_step A3))))"

text \<open>The constant of \<^verbatim>\<open><cfloat>\<close>.\<close>

definition DBL_EPSILON :: real where
  "DBL_EPSILON = 1 / 2 ^ 52"

text \<open>The loop of \<open>real_roots\<close> over the eigenvalues, \<open>roots\<close> being the vector that
  \<open>push_back\<close> extends.\<close>

fun real_roots_loop :: "ChebyshevExpansion \<Rightarrow> bool \<Rightarrow> complex list \<Rightarrow> real list \<Rightarrow> real list" where
  "real_roots_loop e only_in_domain [] roots = roots"
| "real_roots_loop e only_in_domain (ev # evs) roots =
     real_roots_loop e only_in_domain evs
       (if \<bar>Im ev\<bar> < 10 * DBL_EPSILON
        then (let x = ((m_xmax e - m_xmin e) * Re ev + (m_xmax e + m_xmin e)) / 2
              in if \<not> only_in_domain \<or> (x \<le> m_xmax e \<and> x \<ge> m_xmin e)
                 then roots @ [x] else roots)
        else roots)"

text \<open>\<^verbatim>\<open>real_roots(bool only_in_domain)\<close>. \<open>eigenvalues\<close> stands for Eigen's
  \<open>MatrixBase::eigenvalues()\<close>.\<close>

definition real_roots ::
  "(matrix \<Rightarrow> complex list) \<Rightarrow> ChebyshevExpansion \<Rightarrow> bool \<Rightarrow> error + real list" where
  "real_roots eigenvalues e only_in_domain =
     bindE (companion_matrix e) (\<lambda>A.
     Inr (real_roots_loop e only_in_domain (eigenvalues A) []))"

subsection \<open>Approximate roots\<close>

text \<open>\<^verbatim>\<open>is_in_closed_range(x1, x2, x)\<close>.\<close>

definition is_in_closed_range :: "real \<Rightarrow> real \<Rightarrow> real \<Rightarrow> bool" where
  "is_in_closed_range x1 x2 x = (x \<ge> min x1 x2 \<and> x \<le> max x1 x2)"

text \<open>\<open>Eigen::VectorXd::LinSpaced(size, low, high)\<close>: \<open>size\<close> equally spaced values,
  the only one being \<open>high\<close> when \<open>size = 1\<close>.\<close>

definition LinSpaced :: "nat \<Rightarrow> real \<Rightarrow> real \<Rightarrow> vectype" where
  "LinSpaced n low high =
     (if n = 1 then [high]
      else map (\<lambda>i. low + real i * ((high - low) / real (n - 1))) [0..<n])"

text \<open>\<open>std::signbit\<close> of a real number (there is no negative zero among the reals).\<close>

definition signbit :: "real \<Rightarrow> bool" where
  "signbit v = (v < 0)"

text \<open>
  One root of \<open>a x\<^sup>2 + b x + c\<close> as the C++ writes it,
  \<^verbatim>\<open>(-b + s*sqrt(b*b - 4*a*c))/(2*a)\<close> with \<open>s\<close> being \<open>1\<close> or \<open>-1\<close>. The double is
  a NaN when the discriminant is negative, and a NaN or an infinity when \<open>2 a = 0\<close>:
  \<open>None\<close> in both cases.
\<close>

definition quadratic_root :: "real \<Rightarrow> real \<Rightarrow> real \<Rightarrow> real \<Rightarrow> real option" where
  "quadratic_root s a b c =
     (if b * b - 4 * a * c < 0 \<or> 2 * a = 0 then None
      else Some ((- b + s * sqrt (b * b - 4 * a * c)) / (2 * a)))"

text \<open>\<open>is_in_closed_range\<close> on such a value: every comparison with a NaN is false,
  and an infinity is outside every interval with finite ends.\<close>

definition in_closed_range_opt :: "real \<Rightarrow> real \<Rightarrow> real option \<Rightarrow> bool" where
  "in_closed_range_opt x1 x2 v = (case v of None \<Rightarrow> False | Some x \<Rightarrow> is_in_closed_range x1 x2 x)"

text \<open>The selection of \<open>xscaled\<close> among the two roots, with the sentinel of the last
  branch.\<close>

definition select_xscaled :: "real \<Rightarrow> real \<Rightarrow> real option \<Rightarrow> real option \<Rightarrow> real" where
  "select_xscaled lo hi x1 x2 =
     (let x1_in_range = in_closed_range_opt lo hi x1;
          x2_in_range = in_closed_range_opt lo hi x2
      in if x1_in_range \<and> \<not> x2_in_range then the x1
         else if x2_in_range \<and> \<not> x1_in_range then the x2
         else 10 ^ 99)"

text \<open>The \<open>3 \<times> 3\<close> matrix whose rows are \<open>(x\<^sup>2, x, 1)\<close> for the three abscissas.\<close>

definition fit_matrix :: "real \<Rightarrow> real \<Rightarrow> real \<Rightarrow> matrix" where
  "fit_matrix xa xb xc =
     \<lparr>nrows = 3, ncols = 3, m_data = [xa * xa, xb * xb, xc * xc, xa, xb, xc, 1, 1, 1]\<rparr>"

text \<open>
  The branch of \<open>real_roots_approx\<close> taken at a sign change between the samples \<open>i\<close>
  and \<open>i + 1\<close>: the quadratic through three samples, its two roots, the selection, and
  the value that is pushed. \<open>solve A r\<close> stands for
  \<^verbatim>\<open>A.colPivHouseholderQr().solve(r)\<close>.
\<close>

definition fitted_root ::
  "(matrix \<Rightarrow> vectype \<Rightarrow> vectype) \<Rightarrow> ChebyshevExpansion \<Rightarrow> vectype \<Rightarrow> vectype \<Rightarrow> nat \<Rightarrow>
     error + real" where
  "fitted_root solve e xpts_n11 ypts i =
     (let i0 = (if i \<ge> 1 then i - 1 else i)
      in bindE (v_read ypts i0) (\<lambda>r0.
         bindE (v_read ypts (i0 + 1)) (\<lambda>r1.
         bindE (v_read ypts (i0 + 2)) (\<lambda>r2.
         bindE (v_read xpts_n11 i0) (\<lambda>xa.
         bindE (v_read xpts_n11 (i0 + 1)) (\<lambda>xb.
         bindE (v_read xpts_n11 (i0 + 2)) (\<lambda>xc.
         let abc = solve (fit_matrix xa xb xc) [r0, r1, r2]
         in bindE (v_read abc 0) (\<lambda>a.
            bindE (v_read abc 1) (\<lambda>b.
            bindE (v_read abc 2) (\<lambda>c.
            bindE (v_read xpts_n11 i) (\<lambda>lo.
            bindE (v_read xpts_n11 (i + 1)) (\<lambda>hi.
            let xscaled = select_xscaled lo hi (quadratic_root 1 a b c)
                            (quadratic_root (- 1) a b c)
            in Inr (((m_xmax e - m_xmin e) * xscaled + (m_xmax e + m_xmin e)) / 2)))))))))))))"

text \<open>The body of the loop of \<open>real_roots_approx\<close> at index \<open>i\<close>.\<close>

definition approx_step ::
  "(matrix \<Rightarrow> vectype \<Rightarrow> vectype) \<Rightarrow> ChebyshevExpansion \<Rightarrow> vectype \<Rightarrow> vectype \<Rightarrow> nat \<Rightarrow>
     real list \<Rightarrow> error + real list" where
  "approx_step solve e xpts_n11 ypts i roots =
     bindE (v_read ypts i) (\<lambda>y1.
     bindE (v_read ypts (i + 1)) (\<lambda>y2.
     if signbit y1 \<noteq> signbit y2
     then bindE (fitted_root solve e xpts_n11 ypts i) (\<lambda>x. Inr (roots @ [x]))
     else Inr roots))"

text \<open>\<^verbatim>\<open>real_roots_approx(long Npoints)\<close>. The loop bound \<open>Npoints - 1\<close> is compared
  with a \<open>std::size_t\<close> counter.\<close>

definition real_roots_approx ::
  "(matrix \<Rightarrow> vectype \<Rightarrow> vectype) \<Rightarrow> ChebyshevExpansion \<Rightarrow> nat \<Rightarrow>
     error + (real list \<times> ChebyshevExpansion)" where
  "real_roots_approx solve e Npoints =
     (let xpts_n11 = map (\<lambda>v. cos (v * pi / real Npoints))
                       (LinSpaced (Npoints + 1) 0 (real Npoints))
      in bindE (y_xscaled e xpts_n11) (\<lambda>(ypts, e').
         bindE (for_loop 0 (size_t_sub Npoints 1) (approx_step solve e xpts_n11 ypts) [])
           (\<lambda>roots. Inr (roots, e'))))"

text \<open>
  The solution of a \<open>3 \<times> 3\<close> system by Cramer's rule: what the QR solver returns for a
  regular matrix when no rounding takes place.
\<close>

definition det3 ::
  "real \<Rightarrow> real \<Rightarrow> real \<Rightarrow> real \<Rightarrow> real \<Rightarrow> real \<Rightarrow> real \<Rightarrow> real \<Rightarrow> real \<Rightarrow> real" where
  "det3 a b c d e f g h i = a * (e * i - f * h) - b * (d * i - f * g) + c * (d * h - e * g)"

definition exact_solve3 :: "matrix \<Rightarrow> vectype \<Rightarrow> vectype" where
  "exact_solve3 A r =
     (let a = coeff A 0 0; b = coeff A 0 1; c = coeff A 0 2;
          d = coeff A 1 0; e = coeff A 1 1; f = coeff A 1 2;
          g = coeff A 2 0; h = coeff A 2 1; i = coeff A 2 2;
          p = r ! 0; q = r ! 1; s = r ! 2;
          D = det3 a b c d e f g h i
      in [det3 p b c q e f s h i / D, det3 a p c d q f g s i / D, det3 a b p d e q g h s / D])"

section \<open>The product of two expansions\<close>

text \<open>\<open>v[k] += x\<close> on a vector.\<close>

definition add_at :: "vectype \<Rightarrow> nat \<Rightarrow> real \<Rightarrow> vectype" where
  "add_at v k x = v[k := v ! k + x]"

text \<open>
  Modelled from the spec: \<^verbatim>\<open>operator*(const ChebyshevExpansion &)\<close> is declared in
  ChebTools.h and its body is in no file of the sources. The spec: each pair of
  coefficients \<open>(c1[i], c2[j])\<close> contributes \<open>c1[i]*c2[j]/2\<close> to both output index
  \<open>i+j\<close> and output index \<open>|i-j|\<close>; the result length is \<open>len(c1)+len(c2)-1\<close>.
  \<open>product_pair_step\<close> adds the contribution of one pair, \<open>product_row_step\<close> those of
  the pairs \<open>(i, 0), (i, 1), ...\<close>, and \<open>spec_product_coef\<close> those of all pairs, to a
  vector of zeros.
\<close>

definition product_pair_step :: "vectype \<Rightarrow> vectype \<Rightarrow> nat \<Rightarrow> nat \<Rightarrow> vectype \<Rightarrow> vectype" where
  "product_pair_step c1 c2 i j out =
     add_at (add_at out (i + j) (c1 ! i * c2 ! j / 2))
       (if j \<le> i then i - j else j - i) (c1 ! i * c2 ! j / 2)"

definition product_row_step :: "vectype \<Rightarrow> vectype \<Rightarrow> nat \<Rightarrow> vectype \<Rightarrow> vectype" where
  "product_row_step c1 c2 i out = fold (product_pair_step c1 c2 i) [0..<length c2] out"

definition spec_product_coef :: "vectype \<Rightarrow> vectype \<Rightarrow> vectype" where
  "spec_product_coef c1 c2 =
     fold (product_row_step c1 c2) [0..<length c1] (replicate (length c1 + length c2 - 1) 0)"

text \<open>
  Modelled from the spec: the product of two expansions on the same domain, with the
  coefficients above and the domain of the operands.
\<close>

definition operator_times_expansion ::
  "ChebyshevExpansion \<Rightarrow> ChebyshevExpansion \<Rightarrow> ChebyshevExpansion" where
  "operator_times_expansion e ce2 =
     ChebyshevExpansion (spec_product_coef (m_c e) (coef ce2)) (m_xmin e) (m_xmax e)"

section \<open>What the specification says\<close>

text \<open>The Chebyshev polynomials on \<open>[-1, 1]\<close>: \<open>T\<^sub>0 = 1\<close>, \<open>T\<^sub>1 = x\<close>,
  \<open>T\<^bsub>k+1\<^esub> = 2 x T\<^sub>k - T\<^bsub>k-1\<^esub>\<close>, and the sum of an expansion in this basis.\<close>

fun chebyshev_T :: "nat \<Rightarrow> real \<Rightarrow> real" where
  "chebyshev_T 0 t = 1"
| "chebyshev_T (Suc 0) t = t"
| "chebyshev_T (Suc (Suc k)) t = 2 * t * chebyshev_T (Suc k) t - chebyshev_T k t"

definition spec_canonical_sum :: "vectype \<Rightarrow> real \<Rightarrow> real" where
  "spec_canonical_sum c t = (\<Sum>k<length c. c ! k * chebyshev_T k t)"

text \<open>The affine map of a real-world abscissa into \<open>[-1, 1]\<close> and its inverse.\<close>

definition spec_xscaled :: "real \<Rightarrow> real \<Rightarrow> real \<Rightarrow> real" where
  "spec_xscaled xmin xmax x = (2 * x - (xmax + xmin)) / (xmax - xmin)"

definition spec_real_world :: "real \<Rightarrow> real \<Rightarrow> real \<Rightarrow> real" where
  "spec_real_world xmin xmax xscaled = ((xmax - xmin) * xscaled + (xmax + xmin)) / 2"

text \<open>
  The entry \<open>(i, j)\<close> of the companion matrix of degree \<open>N\<close>: the first row is
  \<open>[0, 1, 0, ...]\<close>, an interior row \<open>i\<close> has \<open>1/2\<close> at the positions \<open>i - 1\<close> and
  \<open>i + 1\<close>, and the last row has \<open>1/2\<close> at the position \<open>N - 2\<close> plus the correction
  \<open>- c[j] / (2 c[N])\<close> at every position \<open>j\<close>.
\<close>

definition spec_companion_entry :: "vectype \<Rightarrow> nat \<Rightarrow> nat \<Rightarrow> nat \<Rightarrow> real" where
  "spec_companion_entry c N i j =
     (if i = 0 then (if j = 1 then 1 else 0)
      else if i = N - 1 then (if j = N - 2 then 1 / 2 else 0) - c ! j / (2 * c ! N)
      else (if j = i - 1 \<or> j = i + 1 then 1 / 2 else 0))"

text \<open>What the pair \<open>(c1[i], c2[j])\<close> contributes to the coefficient \<open>m\<close> of a product:
  \<open>c1[i] c2[j] / 2\<close> when \<open>i + j = m\<close>, and as much again when \<open>|i - j| = m\<close>.\<close>

definition spec_pair_contribution :: "vectype \<Rightarrow> vectype \<Rightarrow> nat \<Rightarrow> nat \<Rightarrow> nat \<Rightarrow> real" where
  "spec_pair_contribution c1 c2 m i j =
     (if i + j = m then c1 ! i * c2 ! j / 2 else 0)
     + (if (if j \<le> i then i - j else j - i) = m then c1 ! i * c2 ! j / 2 else 0)"

text \<open>The eigenvalues that \<open>real_roots\<close> is to keep, and the roots it is to return.\<close>

definition spec_real_roots :: "real \<Rightarrow> real \<Rightarrow> bool \<Rightarrow> complex list \<Rightarrow> real list" where
  "spec_real_roots xmin xmax only_in_domain eigvals =
     filter (\<lambda>x. if only_in_domain then xmin \<le> x \<and> x \<le> xmax else True)
       (map (\<lambda>ev. spec_real_world xmin xmax (Re ev))
          (filter (\<lambda>ev. \<bar>Im ev\<bar> < 10 * DBL_EPSILON) eigvals))"

text \<open>A matrix whose storage has as many cells as its dimensions say.\<close>

definition wf_matrix :: "matrix \<Rightarrow> bool" where
  "wf_matrix A = (length (m_data A) = nrows A * ncols A)"

section \<open>The error monad and the loop rules\<close>

lemma bindE_Inl [simp]: "bindE (Inl err) f = Inl err"
  by (simp add: bindE_def)

lemma bindE_Inr [simp]: "bindE (Inr v) f = f v"
  by (simp add: bindE_def)

lemma bindE_eq_Inr: "bindE m f = Inr r \<longleftrightarrow> (\<exists>v. m = Inr v \<and> f v = Inr r)"
  by (cases m) simp_all

lemma for_loop_total_from:
  assumes step: "\<And>n t. lo \<le> n \<Longrightarrow> n < hi \<Longrightarrow> I n t \<Longrightarrow> \<exists>t'. body n t = Inr t' \<and> I (Suc n) t'"
  shows "lo \<le> m \<Longrightarrow> m \<le> hi \<Longrightarrow> I m s \<Longrightarrow> \<exists>s'. for_loop m hi body s = Inr s' \<and> I hi s'"
proof (induction "hi - m" arbitrary: m s)
  case 0
  then show ?case by (simp add: for_loop.simps)
next
  case (Suc d)
  then have lt: "m < hi" by simp
  from step [OF Suc.prems(1) lt Suc.prems(3)] obtain t' where t': "body m s = Inr t'" "I (Suc m) t'"
    by blast
  have "\<exists>s'. for_loop (Suc m) hi body t' = Inr s' \<and> I hi s'"
  proof (rule Suc.hyps(1))
    show "d = hi - Suc m" using Suc.hyps(2) by simp
    show "I (Suc m) t'" by (rule t')
    show "Suc m \<le> hi" using lt by simp
    show "lo \<le> Suc m" using Suc.prems(1) by simp
  qed
  then show ?case using lt t' by (subst for_loop.simps) simp
qed

lemma for_loop_total:
  assumes "I lo s" and "lo \<le> hi"
    and "\<And>n t. lo \<le> n \<Longrightarrow> n < hi \<Longrightarrow> I n t \<Longrightarrow> \<exists>t'. body n t = Inr t' \<and> I (Suc n) t'"
  shows "\<exists>s'. for_loop lo hi body s = Inr s' \<and> I hi s'"
  using for_loop_total_from [of lo hi I body lo s] assms by blast

lemma for_loop_partial_from:
  assumes step: "\<And>n t t'. lo \<le> n \<Longrightarrow> n < hi \<Longrightarrow> I n t \<Longrightarrow> body n t = Inr t' \<Longrightarrow> I (Suc n) t'"
  shows "for_loop m hi body s = Inr s' \<Longrightarrow> lo \<le> m \<Longrightarrow> m \<le> hi \<Longrightarrow> I m s \<Longrightarrow> I hi s'"
proof (induction "hi - m" arbitrary: m s)
  case 0
  then show ?case by (simp add: for_loop.simps)
next
  case (Suc d)
  then have lt: "m < hi" by simp
  from Suc.prems(1) lt obtain t' where t': "body m s = Inr t'" "for_loop (Suc m) hi body t' = Inr s'"
    by (subst (asm) for_loop.simps) (auto split: sum.splits)
  show ?case
  proof (rule Suc.hyps(1) [OF _ t'(2)])
    show "d = hi - Suc m" using Suc.hyps(2) by simp
    show "I (Suc m) t'" using step [OF Suc.prems(2) lt Suc.prems(4) t'(1)] .
    show "Suc m \<le> hi" using lt by simp
    show "lo \<le> Suc m" using Suc.prems(2) by simp
  qed
qed

lemma for_loop_partial:
  assumes "for_loop lo hi body s = Inr s'" and "I lo s" and "lo \<le> hi"
    and "\<And>n t t'. lo \<le> n \<Longrightarrow> n < hi \<Longrightarrow> I n t \<Longrightarrow> body n t = Inr t' \<Longrightarrow> I (Suc n) t'"
  shows "I hi s'"
  using for_loop_partial_from [of lo hi I body lo s s'] assms by blast

lemma for_loop_empty: "hi \<le> lo \<Longrightarrow> for_loop lo hi body s = Inr s"
  by (simp add: for_loop.simps)

text \<open>Two loops whose bodies commute with a map of the state give results that the
  map relates.\<close>

lemma map_sum_bindE:
  "map_sum id g (bindE m f) = bindE m (\<lambda>v. map_sum id g (f v))"
  by (cases m) simp_all

lemma for_loop_map_sum:
  assumes "\<And>n t. body n (h t) = map_sum id h (body' n t)"
  shows "for_loop lo hi body (h s) = map_sum id h (for_loop lo hi body' s)"
proof (induction "hi - lo" arbitrary: lo s)
  case 0
  then show ?case by (simp add: for_loop_empty)
next
  case (Suc d)
  then have lt: "lo < hi" by simp
  show ?case
  proof (cases "body' lo s")
    case (Inl err)
    then show ?thesis using lt assms [of lo s]
      by (simp add: for_loop.simps [of lo])
  next
    case (Inr t)
    have "for_loop (Suc lo) hi body (h t) = map_sum id h (for_loop (Suc lo) hi body' t)"
      by (rule Suc.hyps(1)) (use Suc.hyps(2) in linarith)
    then show ?thesis using lt assms [of lo s] Inr
      by (simp add: for_loop.simps [of lo])
  qed
qed

section \<open>Construction and arithmetic\<close>

lemma ChebyshevExpansion_m_xmin [simp]: "m_xmin (ChebyshevExpansion c xmin xmax) = xmin"
  by (simp add: ChebyshevExpansion_def resize_def)

lemma ChebyshevExpansion_m_xmax [simp]: "m_xmax (ChebyshevExpansion c xmin xmax) = xmax"
  by (simp add: ChebyshevExpansion_def resize_def)

lemma ChebyshevExpansion_m_c [simp]: "m_c (ChebyshevExpansion c xmin xmax) = c"
  by (simp add: ChebyshevExpansion_def resize_def)

lemma ChebyshevExpansion_buffer [simp]:
  "length (m_recurrence_buffer (ChebyshevExpansion c xmin xmax)) = length c"
  by (simp add: ChebyshevExpansion_def resize_def VectorXd_resize_def)

text \<open>
  Claim C8, as amended. No constructor checks the bounds: for every coefficient vector
  and every pair of bounds, \<open>xmin \<ge> xmax\<close> included, the constructor returns the
  expansion that stores the coefficients and both bounds as given, with a scratch
  buffer as long as the coefficient vector. \<open>xmin < xmax\<close> is left to the caller.
\<close>

theorem constructor_stores_bounds_unchecked:
  "m_c (ChebyshevExpansion c xmin xmax) = c
   \<and> m_xmin (ChebyshevExpansion c xmin xmax) = xmin
   \<and> m_xmax (ChebyshevExpansion c xmin xmax) = xmax
   \<and> length (m_recurrence_buffer (ChebyshevExpansion c xmin xmax)) = length c"
  by simp

text \<open>
  Claim C8 as stated (a construction with \<open>xmin \<ge> xmax\<close> is signalled to the caller
  and produces no expansion with an inverted domain) fails: the construction with
  \<open>xmin = 2\<close> and \<open>xmax = 1\<close> returns an expansion on the inverted domain.
\<close>

theorem constructor_accepts_inverted_domain:
  "m_xmin (ChebyshevExpansion [1] 2 1) = 2 \<and> m_xmax (ChebyshevExpansion [1] 2 1) = 1
   \<and> \<not> m_xmin (ChebyshevExpansion [1] 2 1) < m_xmax (ChebyshevExpansion [1] 2 1)"
  by simp

text \<open>
  Claim C9 (\<open>A * s\<close> and \<open>s * A\<close> keep the bounds of \<open>A\<close>) against main.cpp: both
  operators build their result with the default arguments of the constructor, so the
  product of an expansion on \<open>[0, 10]\<close> is an expansion on \<open>[-1, 1]\<close>.
\<close>

theorem scalar_product_resets_domain:
  "m_xmin (operator_times (ChebyshevExpansion [1, 2] 0 10) 2) = - 1
   \<and> m_xmax (operator_times (ChebyshevExpansion [1, 2] 0 10) 2) = 1
   \<and> m_xmin (operator_times_friend 2 (ChebyshevExpansion [1, 2] 0 10)) = - 1
   \<and> m_xmax (operator_times_friend 2 (ChebyshevExpansion [1, 2] 0 10)) = 1
   \<and> m_xmax (ChebyshevExpansion [1, 2] 0 10) = 10"
  by (simp add: operator_times_def operator_times_friend_def)

text \<open>The friend operator of ChebTools.h does keep them.\<close>

lemma ChebTools_friend_keeps_domain:
  "m_xmin (ChebTools_operator_times_friend s ce) = m_xmin ce
   \<and> m_xmax (ChebTools_operator_times_friend s ce) = m_xmax ce
   \<and> coef (ChebTools_operator_times_friend s ce) = map (\<lambda>a. a * s) (coef ce)"
  by (simp add: ChebTools_operator_times_friend_def coef_def)

lemma operator_times_default_domain:
  "m_xmin (operator_times e s) = - 1 \<and> m_xmax (operator_times e s) = 1
   \<and> m_xmin (operator_times_friend s e) = - 1 \<and> m_xmax (operator_times_friend s e) = 1"
  by (simp add: operator_times_def operator_times_friend_def)

text \<open>
  Claim C2 (the sum of two expansions of different lengths pads the shorter one) against
  main.cpp: \<open>operator+\<close> throws on the operands of the test "first longer lengths".
\<close>

theorem sum_of_different_lengths_throws:
  "operator_plus (ChebyshevExpansion [1, 2, 3, 4] (1 / 10) (38 / 10))
                 (ChebyshevExpansion [1 / 10, 2 / 10, 3 / 10] (1 / 10) (38 / 10))
   = Inl LengthsNotSame"
  by (simp add: operator_plus_def coef_def)

lemma operator_plus_throws_iff:
  "operator_plus e ce2 = Inl LengthsNotSame \<longleftrightarrow> length (m_c e) \<noteq> length (m_c ce2)"
  by (simp add: operator_plus_def coef_def)

text \<open>
  \<open>operator+=\<close> does what the claim says when the donor is not the longer operand.
  When it is, the sums of the first \<open>Nmin\<close> coefficients are lost in \<open>m_c.resize\<close>:
  the result starts with whatever the new storage holds.
\<close>

lemma operator_plus_assign_shorter_donor:
  assumes "length (coef donor) \<le> length (m_c e)"
  shows "m_c (operator_plus_assign fresh e donor)
         = map2 (+) (take (length (coef donor)) (m_c e)) (coef donor)
           @ drop (length (coef donor)) (m_c e)"
  using assms by (simp add: operator_plus_assign_def Let_def min_def)

lemma operator_plus_assign_longer_donor:
  assumes "length (m_c e) < length (coef donor)"
  shows "m_c (operator_plus_assign fresh e donor)
         = map fresh [0..<length (m_c e)] @ drop (length (m_c e)) (coef donor)"
  using assms
  by (simp add: operator_plus_assign_def Let_def min_def max_def VectorXd_resize_def take_map)

lemma operator_plus_assign_loses_sums:
  "m_c (operator_plus_assign (\<lambda>_. 0) (ChebyshevExpansion [1 / 10, 2 / 10, 3 / 10] (1 / 10) (38 / 10))
          (ChebyshevExpansion [1, 2, 3, 4] (1 / 10) (38 / 10)))
   = [0, 0, 0, 4]"
  by (simp add: operator_plus_assign_longer_donor coef_def upt_rec)

section \<open>Expansions with fewer than three coefficients\<close>

lemma size_t_sub_simps [simp]:
  "b \<le> a \<Longrightarrow> size_t_sub a b = a - b"
  by (simp add: size_t_sub_def)

lemma companion_matrix_short:
  assumes "length (m_c e) = 1 \<or> length (m_c e) = 2"
  shows "companion_matrix e = Inl EigenAssert"
  using assms
  by (auto simp add: companion_matrix_def Let_def MatrixXd_Zero_def m_write_def size_t_sub_def)

lemma real_roots_short:
  assumes "length (m_c e) = 1 \<or> length (m_c e) = 2"
  shows "real_roots eigenvalues e only_in_domain = Inl EigenAssert"
  by (simp add: real_roots_def companion_matrix_short [OF assms])

text \<open>
  Claim C3 (a linear expansion has exactly one root, \<open>- c[0] / c[1]\<close>, found by the
  general companion-matrix machinery) against main.cpp: for the expansion \<open>[0, 1]\<close> on
  \<open>[-1, 1]\<close> of the test, \<open>companion_matrix\<close> builds a \<open>1 \<times> 1\<close> matrix and writes
  \<open>A(0, 1)\<close>, which is out of range, so \<open>real_roots\<close> returns no root at all.
\<close>

theorem linear_expansion_roots_assert:
  "real_roots eigenvalues (ChebyshevExpansion [0, 1] (- 1) 1) True = Inl EigenAssert"
  by (simp add: real_roots_short)

text \<open>
  Claim C4 (an all-zero expansion has the empty root set, and no error is raised) against
  main.cpp: for the all-zero expansions of length 2 and of length 1, \<open>real_roots\<close> fails
  in \<open>companion_matrix\<close> with an index out of range, whatever the eigenvalue solver.
\<close>

theorem zero_expansion_roots_assert:
  "real_roots eigenvalues (ChebyshevExpansion [0, 0] (- 1) 1) True = Inl EigenAssert
   \<and> real_roots eigenvalues (ChebyshevExpansion [0] (- 1) 1) True = Inl EigenAssert"
  by (simp add: real_roots_short)

lemma y_double_constant:
  assumes "length (m_c e) = 1"
  shows "y_double e x = Inl EigenAssert"
proof (cases "length (m_recurrence_buffer e) \<le> 1")
  case True
  then show ?thesis
    by (cases "m_recurrence_buffer e") (auto simp add: y_double_def Let_def v_write_def bindE_def)
next
  case False
  then show ?thesis using assms
    by (auto simp add: y_double_def Let_def v_write_def for_loop_empty dot_def)
qed

lemma y_xscaled_constant:
  assumes "length (m_c e) = 1"
  shows "y_xscaled e xs = Inl EigenAssert"
  using assms
  by (simp add: y_xscaled_def Let_def col_fill_def col_assign_def MatrixXd_resize_def
      matrix_of_fun_def)

text \<open>
  Claim C6 (a constant expansion evaluates to \<open>c[0]\<close>, the \<open>n = 1\<close> term being guarded)
  against main.cpp: on the expansion \<open>[1]\<close> on \<open>[0, 10]\<close> of the test, the scalar
  evaluation writes \<open>o(1)\<close> into a buffer of length 1 and the batched evaluation assigns
  column 1 of a matrix with one column; neither is guarded by \<open>Norder == 0\<close>.
\<close>

theorem constant_expansion_evaluation_asserts:
  "y_double (ChebyshevExpansion [1] 0 10) (1 / 2) = Inl EigenAssert
   \<and> y_vectype (ChebyshevExpansion [1] 0 10) [1 / 2] = Inl EigenAssert
   \<and> y_vectype (ChebyshevExpansion [1] 0 10) [1 / 2, 1 / 2] = Inl EigenAssert"
  by (simp add: y_double_constant y_vectype_def y_xscaled_constant)

section \<open>Evaluation\<close>

lemma for_loop_preserves:
  assumes "for_loop lo hi body s = Inr s'" and "P s"
    and "\<And>n t t'. P t \<Longrightarrow> body n t = Inr t' \<Longrightarrow> P t'"
  shows "P s'"
proof (cases "lo \<le> hi")
  case True
  show ?thesis
    by (rule for_loop_partial [where I = "\<lambda>n. P", OF assms(1) assms(2) True]) (rule assms(3))
next
  case False
  then show ?thesis using assms(1,2) by (simp add: for_loop_empty)
qed

lemma v_write_Inr: "v_write v i x = Inr w \<longleftrightarrow> i < length v \<and> w = v[i := x]"
  by (auto simp add: v_write_def)

lemma v_read_Inr: "v_read v i = Inr x \<longleftrightarrow> i < length v \<and> x = v ! i"
  by (auto simp add: v_read_def)

lemma dot_Inr: "dot a b = Inr r \<longleftrightarrow> length a = length b \<and> r = sum_list (map2 (*) a b)"
  by (auto simp add: dot_def)

lemma sum_list_map2_upt:
  "sum_list (map2 (*) c (map f [0..<length c])) = (\<Sum>k<length c. c ! k * f k)"
proof -
  have "sum_list (map2 (*) c (map f [0..<length c]))
        = (\<Sum>k = 0..<length c. map2 (*) c (map f [0..<length c]) ! k)"
    by (simp add: sum_list_sum_nth)
  also have "\<dots> = (\<Sum>k = 0..<length c. c ! k * f k)"
    by (rule sum.cong) simp_all
  finally show ?thesis by (simp add: atLeast0LessThan)
qed

lemma sum_list_map_upt: "sum_list (map f [0..<n]) = (\<Sum>k<n. f k)"
  by (simp add: interv_sum_list_conv_sum_set_nat atLeast0LessThan)

lemma recurrence_step_length:
  "recurrence_step t n ob = Inr ob' \<Longrightarrow> length ob' = length ob"
  by (auto simp add: recurrence_step_def bindE_eq_Inr v_read_Inr v_write_Inr)

lemma recurrence_loop:
  assumes L: "2 \<le> L" and len: "length o1 = L" and o0: "o1 ! 0 = 1" and o1: "o1 ! 1 = t"
  shows "for_loop 1 (L - 1) (recurrence_step t) o1 = Inr (map (\<lambda>k. chebyshev_T k t) [0..<L])"
proof -
  let ?I = "\<lambda>n ob. length ob = L \<and> (\<forall>k\<le>n. ob ! k = chebyshev_T k t)"
  have base: "?I 1 o1"
    using len o0 o1 by (auto simp add: le_Suc_eq)
  have step: "\<exists>t'. recurrence_step t n ob = Inr t' \<and> ?I (Suc n) t'"
    if "1 \<le> n" "n < L - 1" "?I n ob" for n ob
  proof -
    from that obtain m where m: "n = Suc m" by (cases n) auto
    have "n < length ob" "n - 1 < length ob" "n + 1 < length ob"
      using that by auto
    then have "recurrence_step t n ob = Inr (ob[n + 1 := 2 * t * ob ! n - ob ! (n - 1)])"
      by (simp add: recurrence_step_def v_read_def v_write_def)
    moreover have "?I (Suc n) (ob[n + 1 := 2 * t * ob ! n - ob ! (n - 1)])"
      using that m by (auto simp add: le_Suc_eq nth_list_update)
    ultimately show ?thesis by blast
  qed
  have "\<exists>s'. for_loop 1 (L - 1) (recurrence_step t) o1 = Inr s' \<and> ?I (L - 1) s'"
  proof (rule for_loop_total [where I = ?I])
    show "?I 1 o1" by (rule base)
    show "1 \<le> L - 1" using L by simp
    fix n ob assume "1 \<le> n" "n < L - 1" "?I n ob"
    then show "\<exists>t'. recurrence_step t n ob = Inr t' \<and> ?I (Suc n) t'" by (rule step)
  qed
  then obtain o2 where o2: "for_loop 1 (L - 1) (recurrence_step t) o1 = Inr o2" "?I (L - 1) o2"
    by blast
  have "o2 = map (\<lambda>k. chebyshev_T k t) [0..<L]"
    using o2(2) by (intro nth_equalityI) auto
  then show ?thesis using o2(1) by simp
qed

lemma y_double_eq:
  assumes "2 \<le> length (m_c e)" and "length (m_recurrence_buffer e) = length (m_c e)"
  shows "y_double e x
         = Inr (spec_canonical_sum (m_c e) (spec_xscaled (m_xmin e) (m_xmax e) x),
                e\<lparr>m_recurrence_buffer :=
                    map (\<lambda>k. chebyshev_T k (spec_xscaled (m_xmin e) (m_xmax e) x))
                      [0..<length (m_c e)]\<rparr>)"
proof -
  define t where "t = (2 * x - (m_xmax e + m_xmin e)) / (m_xmax e - m_xmin e)"
  let ?o0 = "(m_recurrence_buffer e)[0 := 1]"
  let ?o1 = "(m_recurrence_buffer e)[0 := 1, 1 := t]"
  let ?o2 = "map (\<lambda>k. chebyshev_T k t) [0..<length (m_c e)]"
  have pos: "0 < length (m_recurrence_buffer e)" "1 < length (m_recurrence_buffer e)"
    using assms by linarith+
  have N: "size_t_sub (length (m_c e)) 1 = length (m_c e) - 1"
    using assms by simp
  have w0: "v_write (m_recurrence_buffer e) 0 1 = Inr ?o0"
    using pos by (simp add: v_write_def)
  have w1: "v_write ?o0 1 t = Inr ?o1"
    using pos by (simp add: v_write_def)
  have lp: "for_loop 1 (length (m_c e) - 1) (recurrence_step t) ?o1 = Inr ?o2"
    using assms pos by (intro recurrence_loop) (simp_all add: nth_list_update)
  have d: "dot (m_c e) ?o2 = Inr (spec_canonical_sum (m_c e) t)"
    by (simp add: dot_def sum_list_map2_upt spec_canonical_sum_def)
  have "y_double e x = Inr (spec_canonical_sum (m_c e) t, e\<lparr>m_recurrence_buffer := ?o2\<rparr>)"
    unfolding y_double_def Let_def t_def [symmetric] N
    by (simp only: w0 w1 lp d bindE_Inr)
  then show ?thesis by (simp add: t_def spec_xscaled_def)
qed

lemma y_double_Inr_D:
  assumes "y_double e x = Inr (r, e')"
  shows "2 \<le> length (m_c e) \<and> length (m_recurrence_buffer e) = length (m_c e)"
proof -
  let ?t = "spec_xscaled (m_xmin e) (m_xmax e) x"
  from assms obtain o0 o1 o2 r' where
    w0: "v_write (m_recurrence_buffer e) 0 1 = Inr o0" and
    w1: "v_write o0 1 ?t = Inr o1" and
    lp: "for_loop 1 (size_t_sub (length (m_c e)) 1) (recurrence_step ?t) o1 = Inr o2" and
    d: "dot (m_c e) o2 = Inr r'"
    unfolding y_double_def Let_def spec_xscaled_def bindE_eq_Inr by blast
  have "length o2 = length o1"
    by (rule for_loop_preserves [OF lp, where P = "\<lambda>ob. length ob = length o1"])
       (simp_all add: recurrence_step_length)
  with w0 w1 d show ?thesis
    by (auto simp add: v_write_Inr dot_Inr)
qed

subsection \<open>Matrices and the batched evaluation\<close>

lemma index_less: 
  fixes i j r c :: nat
  assumes "i < r" and "j < c" shows "i + j * r < r * c"
proof -
  have "i + j * r < r + j * r" using assms by simp
  also have "\<dots> = (Suc j) * r" by simp
  also have "\<dots> \<le> c * r" using assms by (intro mult_le_mono1) simp
  finally show ?thesis by (simp add: mult.commute)
qed

lemma index_inj:
  fixes i j r :: nat
  assumes "i < r" and "i' < r"
  shows "i + j * r = i' + j' * r \<longleftrightarrow> i = i' \<and> j = j'"
proof
  assume eq: "i + j * r = i' + j' * r"
  have "(i + j * r) mod r = i" "(i' + j' * r) mod r = i'" using assms by simp_all
  with eq have "i = i'" by simp
  moreover have "(i + j * r) div r = j" "(i' + j' * r) div r = j'" using assms by simp_all
  with eq have "j = j'" by simp
  ultimately show "i = i' \<and> j = j'" by simp
qed simp

lemma coeff_matrix_of_fun:
  assumes "i < r" and "j < c"
  shows "coeff (matrix_of_fun r c f) i j = f i j"
  using assms index_less [OF assms]
  by (simp add: coeff_def matrix_of_fun_def)

lemma dims_matrix_of_fun [simp]:
  "nrows (matrix_of_fun r c f) = r" "ncols (matrix_of_fun r c f) = c"
  by (simp_all add: matrix_of_fun_def)

lemma col_assign_Inr:
  "col_assign A j xs = Inr A' \<longleftrightarrow>
     j < ncols A \<and> length xs = nrows A
     \<and> A' = matrix_of_fun (nrows A) (ncols A) (\<lambda>i k. if k = j then xs ! i else coeff A i k)"
  by (auto simp add: col_assign_def)

lemma col_assign_coeff:
  assumes "col_assign A j xs = Inr A'" and "i < nrows A" and "k < ncols A"
  shows "coeff A' i k = (if k = j then xs ! i else coeff A i k)"
  using assms by (simp add: col_assign_Inr coeff_matrix_of_fun)

lemma col_assign_dims:
  assumes "col_assign A j xs = Inr A'"
  shows "nrows A' = nrows A" "ncols A' = ncols A"
  using assms by (simp_all add: col_assign_Inr)

lemma col_read_Inr:
  "col_read A j = Inr v \<longleftrightarrow> j < ncols A \<and> v = map (\<lambda>i. coeff A i j) [0..<nrows A]"
  by (auto simp add: col_read_def)

lemma column_recurrence_step_dims:
  assumes "column_recurrence_step xs n A = Inr A'"
  shows "nrows A' = nrows A \<and> ncols A' = ncols A"
  using assms
  by (auto simp add: column_recurrence_step_def bindE_eq_Inr col_assign_Inr)

lemma column_recurrence_step_ok:
  assumes "1 \<le> n" and "n + 1 < ncols A" and "nrows A = length xs"
  shows "\<exists>A'. column_recurrence_step xs n A = Inr A'
          \<and> nrows A' = nrows A \<and> ncols A' = ncols A
          \<and> (\<forall>i<nrows A. \<forall>k<ncols A. coeff A' i k =
                (if k = n + 1 then 2 * xs ! i * coeff A i n - coeff A i (n - 1) else coeff A i k))"
proof -
  define cn where "cn = map (\<lambda>i. coeff A i n) [0..<nrows A]"
  define cn1 where "cn1 = map (\<lambda>i. coeff A i (n - 1)) [0..<nrows A]"
  define v where "v = map (\<lambda>i. 2 * xs ! i * cn ! i - cn1 ! i) [0..<length xs]"
  have r1: "col_read A n = Inr cn"
    using assms by (simp add: col_read_def cn_def)
  have r2: "col_read A (n - 1) = Inr cn1"
    using assms by (simp add: col_read_def cn1_def)
  have lv: "length v = nrows A"
    using assms by (simp add: v_def)
  obtain A' where A': "col_assign A (n + 1) v = Inr A'"
    using assms lv by (simp add: col_assign_def)
  have st: "column_recurrence_step xs n A = Inr A'"
    unfolding column_recurrence_step_def by (simp only: r1 r2 bindE_Inr A' v_def [symmetric])
  have "coeff A' i k
      = (if k = n + 1 then 2 * xs ! i * coeff A i n - coeff A i (n - 1) else coeff A i k)"
    if "i < nrows A" "k < ncols A" for i k
    using col_assign_coeff [OF A' that] that assms(3) by (simp add: v_def cn_def cn1_def)
  then show ?thesis
    using st col_assign_dims [OF A'] by blast
qed

lemma column_recurrence_loop:
  assumes L: "2 \<le> L" and dims: "nrows A2 = length xs" "ncols A2 = L"
    and c0: "\<And>i. i < length xs \<Longrightarrow> coeff A2 i 0 = 1"
    and c1: "\<And>i. i < length xs \<Longrightarrow> coeff A2 i 1 = xs ! i"
  shows "\<exists>A3. for_loop 1 (L - 1) (column_recurrence_step xs) A2 = Inr A3
          \<and> nrows A3 = length xs \<and> ncols A3 = L
          \<and> (\<forall>k<L. \<forall>i<length xs. coeff A3 i k = chebyshev_T k (xs ! i))"
proof -
  let ?I = "\<lambda>n A. nrows A = length xs \<and> ncols A = L
                  \<and> (\<forall>k\<le>n. \<forall>i<length xs. coeff A i k = chebyshev_T k (xs ! i))"
  have "\<exists>s'. for_loop 1 (L - 1) (column_recurrence_step xs) A2 = Inr s' \<and> ?I (L - 1) s'"
  proof (rule for_loop_total [where I = ?I])
    have "coeff A2 i k = chebyshev_T k (xs ! i)" if "k \<le> 1" "i < length xs" for i k
    proof (cases "k = 0")
      case True
      then show ?thesis using c0 [OF that(2)] by simp
    next
      case False
      with that have "k = 1" by simp
      then show ?thesis using c1 [OF that(2)] by simp
    qed
    then show "?I 1 A2" using dims by blast
    show "1 \<le> L - 1" using L by simp
    fix n A assume n: "1 \<le> n" "n < L - 1" and I: "?I n A"
    from n obtain m where m: "n = Suc m" by (cases n) auto
    have p: "n + 1 < ncols A" "nrows A = length xs" using n I by simp_all
    from column_recurrence_step_ok [OF n(1) p]
    obtain A' where A': "column_recurrence_step xs n A = Inr A'"
      "nrows A' = nrows A" "ncols A' = ncols A"
      and cf: "\<And>i k. i < nrows A \<Longrightarrow> k < ncols A \<Longrightarrow> coeff A' i k =
          (if k = n + 1 then 2 * xs ! i * coeff A i n - coeff A i (n - 1) else coeff A i k)"
      by blast
    have "coeff A' i k = chebyshev_T k (xs ! i)" if "k \<le> Suc n" "i < length xs" for i k
    proof (cases "k = Suc n")
      case True
      have "coeff A i n = chebyshev_T n (xs ! i)" "coeff A i m = chebyshev_T m (xs ! i)"
        using I that m by simp_all
      then show ?thesis using cf [of i k] that p True m by simp
    next
      case False
      then have "k \<le> n" using that by simp
      then have "coeff A i k = chebyshev_T k (xs ! i)" using I that by simp
      moreover have "k < ncols A" using \<open>k \<le> n\<close> p by simp
      ultimately show ?thesis using cf [of i k] that p False by simp
    qed
    then show "\<exists>t'. column_recurrence_step xs n A = Inr t' \<and> ?I (Suc n) t'"
      using A' I by simp
  qed
  then obtain A3 where A3: "for_loop 1 (L - 1) (column_recurrence_step xs) A2 = Inr A3"
    "nrows A3 = length xs" "ncols A3 = L"
    "\<And>k i. k \<le> L - 1 \<Longrightarrow> i < length xs \<Longrightarrow> coeff A3 i k = chebyshev_T k (xs ! i)"
    by blast
  have "coeff A3 i k = chebyshev_T k (xs ! i)" if "k < L" "i < length xs" for i k
    using A3(4) [of k i] that by simp
  then show ?thesis using A3(1-3) by blast
qed

lemma mat_vec_basis:
  assumes "nrows A = length xs" and "ncols A = length c"
    and "\<forall>k<length c. \<forall>i<length xs. coeff A i k = chebyshev_T k (xs ! i)"
  shows "mat_vec A c = Inr (map (spec_canonical_sum c) xs)"
proof -
  have "sum_list (map (\<lambda>k. coeff A i k * c ! k) [0..<length c]) = spec_canonical_sum c (xs ! i)"
    if "i < length xs" for i
    using that assms(3)
    by (simp add: sum_list_map_upt spec_canonical_sum_def mult.commute)
  then have "map (\<lambda>i. sum_list (map (\<lambda>k. coeff A i k * c ! k) [0..<length c])) [0..<length xs]
             = map (\<lambda>i. spec_canonical_sum c (xs ! i)) [0..<length xs]"
    by simp
  also have "\<dots> = map (spec_canonical_sum c) xs"
    by (rule nth_equalityI) simp_all
  finally show ?thesis using assms by (simp add: mat_vec_def)
qed

lemma y_xscaled_eq:
  assumes "2 \<le> length (m_c e)"
  shows "\<exists>A. y_xscaled e xs
             = Inr (map (spec_canonical_sum (m_c e)) xs, e\<lparr>m_recurrence_buffer_matrix := A\<rparr>)"
proof -
  let ?L = "length (m_c e)"
  define A0 where "A0 = MatrixXd_resize (length xs) (?L - 1 + 1) (m_recurrence_buffer_matrix e)"
  have N: "size_t_sub ?L 1 = ?L - 1" using assms by simp
  have d0: "nrows A0 = length xs" "ncols A0 = ?L"
    using assms by (simp_all add: MatrixXd_resize_def A0_def)
  have "0 < ncols A0" using d0 assms by linarith
  then obtain A1 where A1': "col_assign A0 0 (replicate (nrows A0) 1) = Inr A1"
    by (simp add: col_assign_def)
  then have A1: "col_fill A0 0 1 = Inr A1"
    by (simp add: col_fill_def)
  have d1: "nrows A1 = length xs" "ncols A1 = ?L"
    using col_assign_dims [OF A1'] d0 by simp_all
  have c1: "coeff A1 i 0 = 1" if "i < length xs" for i
    using col_assign_coeff [OF A1', of i 0] that d0 \<open>0 < ncols A0\<close> by simp
  have "1 < ncols A1" using d1 assms by linarith
  then obtain A2 where A2: "col_assign A1 1 xs = Inr A2"
    using d1 by (simp add: col_assign_def)
  have d2: "nrows A2 = length xs" "ncols A2 = ?L"
    using col_assign_dims [OF A2] d1 by simp_all
  have "0 < ncols A1" using d1 assms by linarith
  have c20: "coeff A2 i 0 = 1" if "i < length xs" for i
    using col_assign_coeff [OF A2, of i 0] that d1 \<open>0 < ncols A1\<close> c1 by simp
  have c21: "coeff A2 i 1 = xs ! i" if "i < length xs" for i
    using col_assign_coeff [OF A2, of i 1] that d1 \<open>1 < ncols A1\<close> by simp
  from column_recurrence_loop [OF assms d2 c20 c21]
  obtain A3 where A3: "for_loop 1 (?L - 1) (column_recurrence_step xs) A2 = Inr A3"
    "nrows A3 = length xs" "ncols A3 = ?L"
    "\<forall>k<?L. \<forall>i<length xs. coeff A3 i k = chebyshev_T k (xs ! i)"
    by blast
  have mv: "mat_vec A3 (m_c e) = Inr (map (spec_canonical_sum (m_c e)) xs)"
    using A3 by (intro mat_vec_basis) simp_all
  have "y_xscaled e xs
        = Inr (map (spec_canonical_sum (m_c e)) xs, e\<lparr>m_recurrence_buffer_matrix := A3\<rparr>)"
    unfolding y_xscaled_def Let_def N A0_def [symmetric]
    by (simp only: A1 A2 A3(1) mv bindE_Inr)
  then show ?thesis by blast
qed

lemma y_xscaled_Inr_D:
  assumes "y_xscaled e xs = Inr (r, e')"
  shows "2 \<le> length (m_c e)"
proof -
  let ?N = "size_t_sub (length (m_c e)) 1"
  let ?A0 = "MatrixXd_resize (length xs) (?N + 1) (m_recurrence_buffer_matrix e)"
  from assms obtain A1 A2 A3 r' where
    A1: "col_fill ?A0 0 1 = Inr A1" and
    A2: "col_assign A1 1 xs = Inr A2" and
    lp: "for_loop 1 ?N (column_recurrence_step xs) A2 = Inr A3" and
    mv: "mat_vec A3 (m_c e) = Inr r'"
    unfolding y_xscaled_def Let_def bindE_eq_Inr by blast
  have "ncols A1 = ?N + 1"
    using A1 by (auto simp add: col_fill_def col_assign_Inr MatrixXd_resize_def)
  then have d2: "ncols A2 = ?N + 1" "1 < ?N + 1"
    using A2 by (auto simp add: col_assign_Inr)
  have "ncols A3 = ncols A2"
    by (rule for_loop_preserves [OF lp, where P = "\<lambda>A. ncols A = ncols A2"])
       (simp_all add: column_recurrence_step_dims)
  moreover have "ncols A3 = length (m_c e)"
    using mv by (auto simp add: mat_vec_def split: if_splits)
  ultimately have "length (m_c e) = ?N + 1" using d2 by simp
  with d2 show ?thesis by (auto simp add: size_t_sub_def split: if_splits)
qed

section \<open>The companion matrix and its roots\<close>

lemma real_roots_loop_eq:
  "real_roots_loop e only_in_domain evs roots
   = roots @ spec_real_roots (m_xmin e) (m_xmax e) only_in_domain evs"
  by (induction evs arbitrary: roots)
     (simp_all add: spec_real_roots_def spec_real_world_def Let_def)

lemma real_roots_eq:
  "real_roots eigenvalues e only_in_domain
   = bindE (companion_matrix e) (\<lambda>A.
       Inr (spec_real_roots (m_xmin e) (m_xmax e) only_in_domain (eigenvalues A)))"
  by (simp add: real_roots_def real_roots_loop_eq)

lemma wf_MatrixXd_Zero [simp]: "wf_matrix (MatrixXd_Zero r c)"
  by (simp add: wf_matrix_def MatrixXd_Zero_def)

lemma dims_MatrixXd_Zero [simp]:
  "nrows (MatrixXd_Zero r c) = r" "ncols (MatrixXd_Zero r c) = c"
  by (simp_all add: MatrixXd_Zero_def)

lemma coeff_MatrixXd_Zero:
  assumes "i < r" and "j < c"
  shows "coeff (MatrixXd_Zero r c) i j = 0"
  using index_less [OF assms] by (simp add: coeff_def MatrixXd_Zero_def)

lemma m_write_ok:
  assumes wf: "wf_matrix A" and i: "i < nrows A" and j: "j < ncols A"
  shows "\<exists>A'. m_write A i j x = Inr A' \<and> wf_matrix A' \<and> nrows A' = nrows A \<and> ncols A' = ncols A
           \<and> (\<forall>i'<nrows A. \<forall>j'<ncols A.
                 coeff A' i' j' = (if i' = i \<and> j' = j then x else coeff A i' j'))"
proof -
  let ?A' = "A\<lparr>m_data := (m_data A)[i + j * nrows A := x]\<rparr>"
  have w: "m_write A i j x = Inr ?A'"
    using i j by (simp add: m_write_def)
  have "coeff ?A' i' j' = (if i' = i \<and> j' = j then x else coeff A i' j')"
    if "i' < nrows A" "j' < ncols A" for i' j'
  proof -
    have "i' + j' * nrows A < length (m_data A)"
      using index_less [OF that] wf by (simp add: wf_matrix_def)
    then show ?thesis
      using index_inj [OF i that(1), of j j']
      by (auto simp add: coeff_def nth_list_update)
  qed
  then show ?thesis using w wf by (simp add: wf_matrix_def)
qed

lemma m_read_ok:
  assumes "i < nrows A" and "j < ncols A"
  shows "m_read A i j = Inr (coeff A i j)"
  using assms by (simp add: m_read_def)

lemma last_row_step_ok:
  assumes wf: "wf_matrix A" and dims: "nrows A = N" "ncols A = N"
    and N: "2 \<le> N" and k: "k < N" and len: "length c = N + 1"
  shows "\<exists>A'. last_row_step c N k A = Inr A' \<and> wf_matrix A' \<and> nrows A' = N \<and> ncols A' = N
           \<and> (\<forall>i<N. \<forall>j<N. coeff A' i j =
                 (if i = N - 1 \<and> j = k then coeff A i j - c ! k / (2 * c ! N) else coeff A i j))"
proof -
  have s: "size_t_sub N 1 = N - 1" using N by simp
  have r: "m_read A (N - 1) k = Inr (coeff A (N - 1) k)"
    using dims N k by (simp add: m_read_def)
  have v1: "v_read c k = Inr (c ! k)" and v2: "v_read c N = Inr (c ! N)"
    using len k by (simp_all add: v_read_def)
  have "N - 1 < nrows A" "k < ncols A" using dims N k by simp_all
  from m_write_ok [OF wf this, of "coeff A (N - 1) k - c ! k / (2 * c ! N)"]
  obtain A' where A': "m_write A (N - 1) k (coeff A (N - 1) k - c ! k / (2 * c ! N)) = Inr A'"
    "wf_matrix A'" "nrows A' = nrows A" "ncols A' = ncols A"
    "\<forall>i'<nrows A. \<forall>j'<ncols A. coeff A' i' j' =
        (if i' = N - 1 \<and> j' = k then coeff A (N - 1) k - c ! k / (2 * c ! N) else coeff A i' j')"
    by blast
  have "last_row_step c N k A = Inr A'"
    unfolding last_row_step_def s by (simp only: r v1 v2 bindE_Inr A'(1))
  moreover have "coeff A' i j =
      (if i = N - 1 \<and> j = k then coeff A i j - c ! k / (2 * c ! N) else coeff A i j)"
    if "i < N" "j < N" for i j
    using A'(5) that dims by auto
  ultimately show ?thesis using A'(2-4) dims by auto
qed

lemma other_rows_step_ok:
  assumes wf: "wf_matrix A" and dims: "nrows A = N" "ncols A = N"
    and j: "1 \<le> j" "j < N - 1"
  shows "\<exists>A'. other_rows_step j A = Inr A' \<and> wf_matrix A' \<and> nrows A' = N \<and> ncols A' = N
           \<and> (\<forall>i<N. \<forall>k<N. coeff A' i k =
                 (if i = j \<and> (k = j - 1 \<or> k = j + 1) then 1 / 2 else coeff A i k))"
proof -
  have b1: "j < nrows A" "j - 1 < ncols A" using dims j by simp_all
  from m_write_ok [OF wf b1, of "1 / 2"]
  obtain A1 where A1: "m_write A j (j - 1) (1 / 2) = Inr A1"
    "wf_matrix A1" "nrows A1 = nrows A" "ncols A1 = ncols A"
    "\<forall>i'<nrows A. \<forall>j'<ncols A. coeff A1 i' j' =
        (if i' = j \<and> j' = j - 1 then 1 / 2 else coeff A i' j')"
    by blast
  have b2: "j < nrows A1" "j + 1 < ncols A1" using dims j A1 by simp_all
  from m_write_ok [OF A1(2) b2, of "1 / 2"]
  obtain A2 where A2: "m_write A1 j (j + 1) (1 / 2) = Inr A2"
    "wf_matrix A2" "nrows A2 = nrows A1" "ncols A2 = ncols A1"
    "\<forall>i'<nrows A1. \<forall>j'<ncols A1. coeff A2 i' j' =
        (if i' = j \<and> j' = j + 1 then 1 / 2 else coeff A1 i' j')"
    by blast
  have "other_rows_step j A = Inr A2"
    unfolding other_rows_step_def by (simp only: A1(1) A2(1) bindE_Inr)
  moreover have "coeff A2 i k =
      (if i = j \<and> (k = j - 1 \<or> k = j + 1) then 1 / 2 else coeff A i k)"
    if "i < N" "k < N" for i k
    using A1(3-5) A2(5) that dims by auto
  ultimately show ?thesis using A1(3,4) A2(2-4) dims by auto
qed

lemma last_row_loop:
  assumes wf: "wf_matrix A2" and dims: "nrows A2 = N" "ncols A2 = N"
    and N: "2 \<le> N" and len: "length c = N + 1"
  shows "\<exists>A3. for_loop 0 N (last_row_step c N) A2 = Inr A3
           \<and> wf_matrix A3 \<and> nrows A3 = N \<and> ncols A3 = N
           \<and> (\<forall>i<N. \<forall>j<N. coeff A3 i j =
                 (if i = N - 1 then coeff A2 i j - c ! j / (2 * c ! N) else coeff A2 i j))"
proof -
  let ?I = "\<lambda>k A. wf_matrix A \<and> nrows A = N \<and> ncols A = N
             \<and> (\<forall>i<N. \<forall>j<N. coeff A i j =
                  (if i = N - 1 \<and> j < k then coeff A2 i j - c ! j / (2 * c ! N)
                   else coeff A2 i j))"
  have "\<exists>s'. for_loop 0 N (last_row_step c N) A2 = Inr s' \<and> ?I N s'"
  proof (rule for_loop_total [where I = ?I])
    show "?I 0 A2" using wf dims by simp
    show "0 \<le> N" by simp
    fix k A assume k: "0 \<le> k" "k < N" and I: "?I k A"
    from I have wfA: "wf_matrix A" and dA: "nrows A = N" "ncols A = N" by simp_all
    from last_row_step_ok [OF wfA dA N k(2) len]
    obtain A' where A': "last_row_step c N k A = Inr A'" "wf_matrix A'" "nrows A' = N"
      "ncols A' = N"
      and cf: "\<And>i j. i < N \<Longrightarrow> j < N \<Longrightarrow> coeff A' i j =
          (if i = N - 1 \<and> j = k then coeff A i j - c ! k / (2 * c ! N) else coeff A i j)"
      by blast
    have "coeff A' i j =
        (if i = N - 1 \<and> j < Suc k then coeff A2 i j - c ! j / (2 * c ! N) else coeff A2 i j)"
      if "i < N" "j < N" for i j
      using cf [OF that] I that by (auto simp add: less_Suc_eq)
    then show "\<exists>t'. last_row_step c N k A = Inr t' \<and> ?I (Suc k) t'"
      using A' by blast
  qed
  then obtain A3 where A3: "for_loop 0 N (last_row_step c N) A2 = Inr A3" "?I N A3"
    by blast
  then show ?thesis by auto
qed

lemma other_rows_loop:
  assumes wf: "wf_matrix A3" and dims: "nrows A3 = N" "ncols A3 = N" and N: "2 \<le> N"
  shows "\<exists>A4. for_loop 1 (N - 1) other_rows_step A3 = Inr A4
           \<and> wf_matrix A4 \<and> nrows A4 = N \<and> ncols A4 = N
           \<and> (\<forall>i<N. \<forall>k<N. coeff A4 i k =
                 (if 1 \<le> i \<and> i < N - 1 \<and> (k = i - 1 \<or> k = i + 1) then 1 / 2
                  else coeff A3 i k))"
proof -
  let ?I = "\<lambda>j A. wf_matrix A \<and> nrows A = N \<and> ncols A = N
             \<and> (\<forall>i<N. \<forall>k<N. coeff A i k =
                  (if 1 \<le> i \<and> i < j \<and> (k = i - 1 \<or> k = i + 1) then 1 / 2
                   else coeff A3 i k))"
  have "\<exists>s'. for_loop 1 (N - 1) other_rows_step A3 = Inr s' \<and> ?I (N - 1) s'"
  proof (rule for_loop_total [where I = ?I])
    show "?I 1 A3" using wf dims by simp
    show "1 \<le> N - 1" using N by simp
    fix j A assume j: "1 \<le> j" "j < N - 1" and I: "?I j A"
    from I have wfA: "wf_matrix A" and dA: "nrows A = N" "ncols A = N" by simp_all
    from other_rows_step_ok [OF wfA dA j]
    obtain A' where A': "other_rows_step j A = Inr A'" "wf_matrix A'" "nrows A' = N"
      "ncols A' = N"
      and cf: "\<And>i k. i < N \<Longrightarrow> k < N \<Longrightarrow> coeff A' i k =
          (if i = j \<and> (k = j - 1 \<or> k = j + 1) then 1 / 2 else coeff A i k)"
      by blast
    have "coeff A' i k =
        (if 1 \<le> i \<and> i < Suc j \<and> (k = i - 1 \<or> k = i + 1) then 1 / 2 else coeff A3 i k)"
      if "i < N" "k < N" for i k
      using cf [OF that] I that j by (auto simp add: less_Suc_eq)
    then show "\<exists>t'. other_rows_step j A = Inr t' \<and> ?I (Suc j) t'"
      using A' by blast
  qed
  then obtain A4 where A4: "for_loop 1 (N - 1) other_rows_step A3 = Inr A4" "?I (N - 1) A4"
    by blast
  then show ?thesis by auto
qed

lemma companion_matrix_entries:
  assumes len: "length (m_c e) = N + 1" and N: "2 \<le> N"
  shows "\<exists>A. companion_matrix e = Inr A \<and> wf_matrix A \<and> nrows A = N \<and> ncols A = N
           \<and> (\<forall>i<N. \<forall>j<N. coeff A i j = spec_companion_entry (m_c e) N i j)"
proof -
  let ?c = "m_c e"
  have s0: "size_t_sub (length ?c) 1 = N" using len by simp
  have s1: "size_t_sub N 1 = N - 1" and s2: "size_t_sub N 2 = N - 2" using N by simp_all
  have b0: "0 < nrows (MatrixXd_Zero N N)" "1 < ncols (MatrixXd_Zero N N)" using N by simp_all
  from m_write_ok [OF wf_MatrixXd_Zero b0, of 1]
  obtain A1 where A1: "m_write (MatrixXd_Zero N N) 0 1 1 = Inr A1" "wf_matrix A1"
    "nrows A1 = N" "ncols A1 = N"
    and c1: "\<And>i j. i < N \<Longrightarrow> j < N \<Longrightarrow> coeff A1 i j = (if i = 0 \<and> j = 1 then 1 else 0)"
    by (auto simp add: coeff_MatrixXd_Zero)
  have b1: "N - 1 < nrows A1" "N - 2 < ncols A1" using N A1 by simp_all
  from m_write_ok [OF A1(2) b1, of "1 / 2"]
  obtain A2 where A2: "m_write A1 (N - 1) (N - 2) (1 / 2) = Inr A2" "wf_matrix A2"
    "nrows A2 = N" "ncols A2 = N"
    and c2: "\<And>i j. i < N \<Longrightarrow> j < N \<Longrightarrow> coeff A2 i j =
        (if i = N - 1 \<and> j = N - 2 then 1 / 2 else coeff A1 i j)"
    using A1(3,4) by auto
  from last_row_loop [OF A2(2-4) N len]
  obtain A3 where A3: "for_loop 0 N (last_row_step ?c N) A2 = Inr A3" "wf_matrix A3"
    "nrows A3 = N" "ncols A3 = N"
    and c3: "\<And>i j. i < N \<Longrightarrow> j < N \<Longrightarrow> coeff A3 i j =
        (if i = N - 1 then coeff A2 i j - ?c ! j / (2 * ?c ! N) else coeff A2 i j)"
    by blast
  from other_rows_loop [OF A3(2-4) N]
  obtain A4 where A4: "for_loop 1 (N - 1) other_rows_step A3 = Inr A4" "wf_matrix A4"
    "nrows A4 = N" "ncols A4 = N"
    and c4: "\<And>i k. i < N \<Longrightarrow> k < N \<Longrightarrow> coeff A4 i k =
        (if 1 \<le> i \<and> i < N - 1 \<and> (k = i - 1 \<or> k = i + 1) then 1 / 2 else coeff A3 i k)"
    by blast
  have cm: "companion_matrix e = Inr A4"
    unfolding companion_matrix_def Let_def s0 s1 s2
    by (simp only: A1(1) A2(1) A3(1) A4(1) bindE_Inr)
  have "coeff A4 i j = spec_companion_entry ?c N i j" if ij: "i < N" "j < N" for i j
  proof -
    have "i = 0 \<or> i = N - 1 \<or> (1 \<le> i \<and> i < N - 1)"
      using ij by linarith
    then consider "i = 0" | "i = N - 1" | "1 \<le> i" "i < N - 1"
      by blast
    then show ?thesis
    proof cases
      case 1
      then have "i \<noteq> N - 1" using N by simp
      then show ?thesis
        using 1 c4 [OF that] c3 [OF that] c2 [OF that] c1 [OF that]
        by (simp add: spec_companion_entry_def)
    next
      case 2
      then have "i \<noteq> 0" "\<not> i < N - 1" using N by simp_all
      then show ?thesis
        using 2 c4 [OF that] c3 [OF that] c2 [OF that] c1 [OF that]
        by (simp add: spec_companion_entry_def)
    next
      case 3
      then have "i \<noteq> 0" "i \<noteq> N - 1" by simp_all
      then show ?thesis
        using 3 c4 [OF that] c3 [OF that] c2 [OF that] c1 [OF that]
        by (simp add: spec_companion_entry_def)
    qed
  qed
  then show ?thesis using cm A4(2-4) by blast
qed

text \<open>
  Claim C1. For an expansion with \<open>N + 1\<close> coefficients, \<open>N \<ge> 2\<close>, \<open>companion_matrix\<close>
  returns the \<open>N \<times> N\<close> matrix whose first row is \<open>[0, 1, 0, ...]\<close>, whose interior rows
  \<open>i\<close> have \<open>1/2\<close> at the positions \<open>i - 1\<close> and \<open>i + 1\<close> and zero elsewhere, and whose
  last row has \<open>1/2\<close> at the position \<open>N - 2\<close> plus \<open>- c[j] / (2 c[N])\<close> at every position
  \<open>j\<close>; and \<open>real_roots\<close> returns, in their order, the eigenvalues of this matrix whose
  imaginary part is below \<open>10 DBL_EPSILON\<close> in absolute value, each mapped to
  \<open>((xmax - xmin) \<lambda> + (xmax + xmin)) / 2\<close>, of which \<open>only_in_domain\<close> keeps those in
  \<open>[xmin, xmax]\<close>. The leading coefficient is not zero: the quotient of the last row
  is then a quotient of real numbers.
\<close>

theorem companion_matrix_and_real_roots:
  assumes "length (m_c e) = N + 1" and "2 \<le> N" and "m_c e ! N \<noteq> 0"
  shows "\<exists>A. companion_matrix e = Inr A \<and> nrows A = N \<and> ncols A = N
           \<and> (\<forall>i<N. \<forall>j<N. m_read A i j = Inr (spec_companion_entry (m_c e) N i j))
           \<and> real_roots eigenvalues e only_in_domain
               = Inr (spec_real_roots (m_xmin e) (m_xmax e) only_in_domain (eigenvalues A))"
proof -
  from companion_matrix_entries [OF assms(1,2)]
  obtain A where A: "companion_matrix e = Inr A" "nrows A = N" "ncols A = N"
    and cf: "\<And>i j. i < N \<Longrightarrow> j < N \<Longrightarrow> coeff A i j = spec_companion_entry (m_c e) N i j"
    by blast
  have "m_read A i j = Inr (spec_companion_entry (m_c e) N i j)" if "i < N" "j < N" for i j
    using cf [OF that] that A(2,3) by (simp add: m_read_def)
  moreover have "real_roots eigenvalues e only_in_domain
      = Inr (spec_real_roots (m_xmin e) (m_xmax e) only_in_domain (eigenvalues A))"
    by (simp add: real_roots_eq A(1))
  ultimately show ?thesis using A by blast
qed

text \<open>
  An instance: \<open>1 + 2 T\<^sub>1 + 4 T\<^sub>2 = 8 x\<^sup>2 + 2 x - 3\<close> on \<open>[0, 10]\<close>, whose companion matrix
  has the eigenvalues \<open>1/2\<close> and \<open>- 3/4\<close>; a third, imaginary value shows the filter.
\<close>

theorem companion_matrix_and_real_roots_witness:
  "length (m_c (ChebyshevExpansion [1, 2, 4] 0 10)) = 2 + 1 \<and> (2::nat) \<le> 2
   \<and> m_c (ChebyshevExpansion [1, 2, 4] 0 10) ! 2 \<noteq> 0
   \<and> (\<exists>A. companion_matrix (ChebyshevExpansion [1, 2, 4] 0 10) = Inr A
         \<and> nrows A = 2 \<and> ncols A = 2
         \<and> m_read A 0 0 = Inr 0 \<and> m_read A 0 1 = Inr 1
         \<and> m_read A 1 0 = Inr (3 / 8) \<and> m_read A 1 1 = Inr (- 1 / 4)
         \<and> real_roots (\<lambda>A. [Complex (1 / 2) 0, Complex (- 3 / 4) 0, Complex 0 1])
               (ChebyshevExpansion [1, 2, 4] 0 10) True
             = Inr [15 / 2, 5 / 4])"
proof -
  let ?e = "ChebyshevExpansion [1, 2, 4] 0 10"
  let ?ev = "[Complex (1 / 2) 0, Complex (- 3 / 4) 0, Complex 0 1]"
  from companion_matrix_and_real_roots [of ?e 2 "\<lambda>A. ?ev" True]
  obtain A where A: "companion_matrix ?e = Inr A" "nrows A = 2" "ncols A = 2"
    and cf: "\<And>i j. i < 2 \<Longrightarrow> j < 2 \<Longrightarrow>
       m_read A i j = Inr (spec_companion_entry [1, 2, 4] 2 i j)"
    and rr: "real_roots (\<lambda>A. ?ev) ?e True = Inr (spec_real_roots 0 10 True ?ev)"
    by auto
  have "m_read A 0 0 = Inr 0" "m_read A 0 1 = Inr 1"
    "m_read A 1 0 = Inr (3 / 8)" "m_read A 1 1 = Inr (- 1 / 4)"
    using cf [of 0 0] cf [of 0 1] cf [of 1 0] cf [of 1 1]
    by (simp_all add: spec_companion_entry_def)
  moreover have "spec_real_roots 0 10 True ?ev = [15 / 2, 5 / 4]"
    by (simp add: spec_real_roots_def spec_real_world_def DBL_EPSILON_def)
  ultimately show ?thesis using A rr by simp
qed

section \<open>Approximate roots\<close>

text \<open>\<open>exact_solve3\<close> solves the system it is given, when the matrix is regular.\<close>

lemma cramer_row:
  fixes a b c d e f g h i p q s :: real
  assumes D: "det3 a b c d e f g h i \<noteq> 0"
  shows "a * (det3 p b c q e f s h i / det3 a b c d e f g h i)
       + b * (det3 a p c d q f g s i / det3 a b c d e f g h i)
       + c * (det3 a b p d e q g h s / det3 a b c d e f g h i) = p"
    and "d * (det3 p b c q e f s h i / det3 a b c d e f g h i)
       + e * (det3 a p c d q f g s i / det3 a b c d e f g h i)
       + f * (det3 a b p d e q g h s / det3 a b c d e f g h i) = q"
    and "g * (det3 p b c q e f s h i / det3 a b c d e f g h i)
       + h * (det3 a p c d q f g s i / det3 a b c d e f g h i)
       + i * (det3 a b p d e q g h s / det3 a b c d e f g h i) = s"
proof -
  let ?D = "det3 a b c d e f g h i"
  have 1: "a * det3 p b c q e f s h i + b * det3 a p c d q f g s i + c * det3 a b p d e q g h s
           = p * ?D"
    by (simp add: det3_def algebra_simps)
  have 2: "d * det3 p b c q e f s h i + e * det3 a p c d q f g s i + f * det3 a b p d e q g h s
           = q * ?D"
    by (simp add: det3_def algebra_simps)
  have 3: "g * det3 p b c q e f s h i + h * det3 a p c d q f g s i + i * det3 a b p d e q g h s
           = s * ?D"
    by (simp add: det3_def algebra_simps)
  have r: "x * (u / ?D) + y * (v / ?D) + z * (w / ?D) = (x * u + y * v + z * w) / ?D"
    for x y z u v w :: real
    by (simp add: add_divide_distrib)
  show "a * (det3 p b c q e f s h i / ?D) + b * (det3 a p c d q f g s i / ?D)
       + c * (det3 a b p d e q g h s / ?D) = p"
    unfolding r 1 using D by simp
  show "d * (det3 p b c q e f s h i / ?D) + e * (det3 a p c d q f g s i / ?D)
       + f * (det3 a b p d e q g h s / ?D) = q"
    unfolding r 2 using D by simp
  show "g * (det3 p b c q e f s h i / ?D) + h * (det3 a p c d q f g s i / ?D)
       + i * (det3 a b p d e q g h s / ?D) = s"
    unfolding r 3 using D by simp
qed

lemma exact_solve3_solves:
  assumes "nrows A = 3" and "ncols A = 3" and "length r = 3"
    and "det3 (coeff A 0 0) (coeff A 0 1) (coeff A 0 2) (coeff A 1 0) (coeff A 1 1) (coeff A 1 2)
           (coeff A 2 0) (coeff A 2 1) (coeff A 2 2) \<noteq> 0"
  shows "mat_vec A (exact_solve3 A r) = Inr r"
proof -
  from assms(3) obtain p q s where r: "r = [p, q, s]"
    by (cases r; cases "tl r"; cases "tl (tl r)") auto
  have u: "[0..<3] = [0, 1, 2]" by (simp add: upt_rec)
  show ?thesis
    using cramer_row [OF assms(4), of p q s] assms(1,2)
    by (simp add: mat_vec_def exact_solve3_def Let_def r u)
qed

lemma select_xscaled_cases:
  "select_xscaled lo hi q1 q2 = 10 ^ 99 \<or> is_in_closed_range lo hi (select_xscaled lo hi q1 q2)"
  by (cases q1; cases q2) (auto simp add: select_xscaled_def in_closed_range_opt_def Let_def)

lemma fitted_root_Inr:
  assumes "fitted_root solve e xpts ypts i = Inr x"
  shows "\<exists>v. x = spec_real_world (m_xmin e) (m_xmax e) v \<and> i + 1 < length xpts
             \<and> (v = 10 ^ 99 \<or> is_in_closed_range (xpts ! i) (xpts ! (i + 1)) v)"
proof -
  from assms obtain lo hi a b c where
    lo: "v_read xpts i = Inr lo" and hi: "v_read xpts (i + 1) = Inr hi" and
    x: "x = ((m_xmax e - m_xmin e)
            * select_xscaled lo hi (quadratic_root 1 a b c) (quadratic_root (- 1) a b c)
          + (m_xmax e + m_xmin e)) / 2"
    unfolding fitted_root_def Let_def bindE_eq_Inr by blast
  from lo hi have b: "i + 1 < length xpts" "lo = xpts ! i" "hi = xpts ! (i + 1)"
    by (simp_all add: v_read_Inr)
  show ?thesis
    using select_xscaled_cases [of lo hi "quadratic_root 1 a b c" "quadratic_root (- 1) a b c"]
      x b
    by (auto simp add: spec_real_world_def)
qed

lemma approx_step_Inr:
  assumes "approx_step solve e xpts ypts i roots = Inr roots'"
  shows "roots' = roots
         \<or> (\<exists>v. roots' = roots @ [spec_real_world (m_xmin e) (m_xmax e) v]
                \<and> i + 1 < length xpts \<and> i + 1 < length ypts
                \<and> signbit (ypts ! i) \<noteq> signbit (ypts ! (i + 1))
                \<and> (v = 10 ^ 99 \<or> is_in_closed_range (xpts ! i) (xpts ! (i + 1)) v))"
proof -
  from assms obtain y1 y2 where
    y1: "v_read ypts i = Inr y1" and y2: "v_read ypts (i + 1) = Inr y2" and
    rest: "(if signbit y1 \<noteq> signbit y2
            then bindE (fitted_root solve e xpts ypts i) (\<lambda>x. Inr (roots @ [x]))
            else Inr roots) = Inr roots'"
    unfolding approx_step_def bindE_eq_Inr by blast
  from y1 y2 have b: "i + 1 < length ypts" "y1 = ypts ! i" "y2 = ypts ! (i + 1)"
    by (simp_all add: v_read_Inr)
  show ?thesis
  proof (cases "signbit y1 \<noteq> signbit y2")
    case False
    then show ?thesis using rest by simp
  next
    case True
    with rest obtain x where x: "fitted_root solve e xpts ypts i = Inr x" "roots' = roots @ [x]"
      by (auto simp add: bindE_eq_Inr)
    from fitted_root_Inr [OF x(1)] x(2) b True show ?thesis by blast
  qed
qed

lemma xpts_n11_eq:
  assumes "1 \<le> N"
  shows "map (\<lambda>v. cos (v * pi / real N)) (LinSpaced (N + 1) 0 (real N))
         = map (\<lambda>i. cos (real i * pi / real N)) [0..<N + 1]"
  using assms by (simp add: LinSpaced_def)

lemma real_world_in_domain:
  assumes "xmin \<le> xmax" and "- 1 \<le> v" and "v \<le> 1"
  shows "xmin \<le> spec_real_world xmin xmax v \<and> spec_real_world xmin xmax v \<le> xmax"
proof -
  have "(xmax - xmin) * v \<le> (xmax - xmin) * 1"
    using assms by (intro mult_left_mono) simp_all
  moreover have "(xmax - xmin) * (- 1) \<le> (xmax - xmin) * v"
    using assms by (intro mult_left_mono) simp_all
  ultimately show ?thesis by (simp add: spec_real_world_def)
qed

lemma in_closed_range_cos:
  assumes "is_in_closed_range (cos a) (cos b) v"
  shows "- 1 \<le> v \<and> v \<le> 1"
proof -
  have "- 1 \<le> min (cos a) (cos b)" "max (cos a) (cos b) \<le> 1" by simp_all
  with assms show ?thesis unfolding is_in_closed_range_def by linarith
qed

lemma real_roots_approx_Inr:
  assumes ok: "real_roots_approx solve e N = Inr (roots, e')" and N: "2 \<le> N"
    and x: "x \<in> set roots"
  shows "\<exists>i v. i + 1 < N
           \<and> signbit (spec_canonical_sum (m_c e) (cos (real i * pi / real N)))
               \<noteq> signbit (spec_canonical_sum (m_c e) (cos (real (i + 1) * pi / real N)))
           \<and> x = spec_real_world (m_xmin e) (m_xmax e) v
           \<and> (v = 10 ^ 99
               \<or> is_in_closed_range (cos (real i * pi / real N)) (cos (real (i + 1) * pi / real N)) v)"
proof -
  define xpts where "xpts = map (\<lambda>i. cos (real i * pi / real N)) [0..<N + 1]"
  have xp: "map (\<lambda>v. cos (v * pi / real N)) (LinSpaced (N + 1) 0 (real N)) = xpts"
    unfolding xpts_def by (rule xpts_n11_eq) (use N in linarith)
  have s: "size_t_sub N 1 = N - 1" using N by simp
  from ok obtain ypts e1 where
    yx: "y_xscaled e xpts = Inr (ypts, e1)" and
    lp: "for_loop 0 (N - 1) (approx_step solve e xpts ypts) [] = Inr roots"
    unfolding real_roots_approx_def Let_def xp s
    by (auto simp add: bindE_eq_Inr)
  from y_xscaled_eq [OF y_xscaled_Inr_D [OF yx], of xpts] yx
  have ypts: "ypts = map (spec_canonical_sum (m_c e)) xpts" by auto
  let ?good = "\<lambda>x. \<exists>i v. i + 1 < N
           \<and> signbit (spec_canonical_sum (m_c e) (cos (real i * pi / real N)))
               \<noteq> signbit (spec_canonical_sum (m_c e) (cos (real (i + 1) * pi / real N)))
           \<and> x = spec_real_world (m_xmin e) (m_xmax e) v
           \<and> (v = 10 ^ 99
               \<or> is_in_closed_range (cos (real i * pi / real N)) (cos (real (i + 1) * pi / real N)) v)"
  have "\<forall>x\<in>set roots. ?good x"
  proof (rule for_loop_partial [where I = "\<lambda>n rs. \<forall>x\<in>set rs. ?good x", OF lp])
    show "\<forall>x\<in>set []. ?good x" by simp
    show "0 \<le> N - 1" by simp
    fix n rs rs' assume n: "n < N - 1" and I: "\<forall>x\<in>set rs. ?good x"
      and st: "approx_step solve e xpts ypts n rs = Inr rs'"
    have lt: "n < N + 1" "n + 1 < N + 1" using n by simp_all
    have xn: "xpts ! n = cos (real n * pi / real N)"
      "xpts ! (n + 1) = cos (real (n + 1) * pi / real N)"
      unfolding xpts_def using lt by (simp_all only: nth_map length_upt diff_zero nth_upt add_0)
    have ln: "n < length xpts" "n + 1 < length xpts"
      unfolding xpts_def using lt by (simp_all only: length_map length_upt diff_zero)
    have nth: "xpts ! n = cos (real n * pi / real N)"
      "xpts ! (n + 1) = cos (real (n + 1) * pi / real N)"
      "ypts ! n = spec_canonical_sum (m_c e) (cos (real n * pi / real N))"
      "ypts ! (n + 1) = spec_canonical_sum (m_c e) (cos (real (n + 1) * pi / real N))"
      using xn ln unfolding ypts by (simp_all only: nth_map)
    from approx_step_Inr [OF st] show "\<forall>x\<in>set rs'. ?good x"
    proof
      assume "rs' = rs" then show ?thesis using I by simp
    next
      assume "\<exists>v. rs' = rs @ [spec_real_world (m_xmin e) (m_xmax e) v]
                \<and> n + 1 < length xpts \<and> n + 1 < length ypts
                \<and> signbit (ypts ! n) \<noteq> signbit (ypts ! (n + 1))
                \<and> (v = 10 ^ 99 \<or> is_in_closed_range (xpts ! n) (xpts ! (n + 1)) v)"
      then obtain v where v: "rs' = rs @ [spec_real_world (m_xmin e) (m_xmax e) v]"
        "signbit (ypts ! n) \<noteq> signbit (ypts ! (n + 1))"
        "v = 10 ^ 99 \<or> is_in_closed_range (xpts ! n) (xpts ! (n + 1)) v"
        by blast
      have "?good (spec_real_world (m_xmin e) (m_xmax e) v)"
        using v(2,3) n unfolding nth by (intro exI [of _ n] exI [of _ v]) simp
      then show ?thesis using I v(1) by simp
    qed
  qed
  then show ?thesis using x by blast
qed

text \<open>
  \<open>real_roots_approx\<close> returns a result for every expansion with at least two
  coefficients and every \<open>Npoints \<ge> 2\<close>, the solver returning three values: every access
  to the samples is in range.
\<close>

lemma fitted_root_returns:
  assumes "i + 1 < N" and "length xpts = N + 1" and "length ypts = N + 1"
    and "\<And>A r. length (solve A r) = 3"
  shows "\<exists>x. fitted_root solve e xpts ypts i = Inr x"
proof -
  define i0 where "i0 = (if i \<ge> 1 then i - 1 else i)"
  have b: "i0 + 2 < N + 1" "i + 1 < N + 1" using assms(1) by (auto simp add: i0_def)
  have r: "v_read ypts i0 = Inr (ypts ! i0)" "v_read ypts (i0 + 1) = Inr (ypts ! (i0 + 1))"
    "v_read ypts (i0 + 2) = Inr (ypts ! (i0 + 2))"
    "v_read xpts i0 = Inr (xpts ! i0)" "v_read xpts (i0 + 1) = Inr (xpts ! (i0 + 1))"
    "v_read xpts (i0 + 2) = Inr (xpts ! (i0 + 2))"
    "v_read xpts i = Inr (xpts ! i)" "v_read xpts (i + 1) = Inr (xpts ! (i + 1))"
    using b assms(2,3) by (simp_all add: v_read_def)
  have s: "v_read (solve A r) 0 = Inr (solve A r ! 0)" "v_read (solve A r) 1 = Inr (solve A r ! 1)"
    "v_read (solve A r) 2 = Inr (solve A r ! 2)" for A r
    using assms(4) [of A r] by (simp_all add: v_read_def)
  show ?thesis
    unfolding fitted_root_def Let_def i0_def [symmetric]
    by (simp only: r s bindE_Inr) blast
qed

lemma real_roots_approx_returns:
  assumes "2 \<le> length (m_c e)" and "2 \<le> Npoints" and "\<And>A r. length (solve A r) = 3"
  shows "\<exists>roots e'. real_roots_approx solve e Npoints = Inr (roots, e')"
proof -
  define xpts where "xpts = map (\<lambda>i. cos (real i * pi / real Npoints)) [0..<Npoints + 1]"
  have xp: "map (\<lambda>v. cos (v * pi / real Npoints)) (LinSpaced (Npoints + 1) 0 (real Npoints)) = xpts"
    unfolding xpts_def by (rule xpts_n11_eq) (use assms(2) in linarith)
  have s: "size_t_sub Npoints 1 = Npoints - 1" using assms(2) by simp
  have lx: "length xpts = Npoints + 1" by (simp add: xpts_def)
  from y_xscaled_eq [OF assms(1), of xpts] obtain A where
    yx: "y_xscaled e xpts = Inr (map (spec_canonical_sum (m_c e)) xpts,
           e\<lparr>m_recurrence_buffer_matrix := A\<rparr>)"
    by blast
  define ypts where "ypts = map (spec_canonical_sum (m_c e)) xpts"
  have ly: "length ypts = Npoints + 1" by (simp add: ypts_def lx)
  have "\<exists>s'. for_loop 0 (Npoints - 1) (approx_step solve e xpts ypts) [] = Inr s' \<and> True"
  proof (rule for_loop_total [where I = "\<lambda>n rs. True"])
    fix n rs assume n: "n < Npoints - 1"
    then have b: "n + 1 < Npoints" by simp
    have r: "v_read ypts n = Inr (ypts ! n)" "v_read ypts (n + 1) = Inr (ypts ! (n + 1))"
      using b ly by (simp_all add: v_read_def)
    from fitted_root_returns [where solve = solve and e = e, OF b lx ly assms(3)]
    obtain x where x: "fitted_root solve e xpts ypts n = Inr x" by blast
    have "\<exists>t'. approx_step solve e xpts ypts n rs = Inr t'"
      unfolding approx_step_def by (simp only: r bindE_Inr x) simp
    then show "\<exists>t'. approx_step solve e xpts ypts n rs = Inr t' \<and> True" by simp
  qed simp_all
  then obtain roots where
    lp: "for_loop 0 (Npoints - 1) (approx_step solve e xpts ypts) [] = Inr roots"
    by blast
  have "real_roots_approx solve e Npoints = Inr (roots, e\<lparr>m_recurrence_buffer_matrix := A\<rparr>)"
    unfolding real_roots_approx_def Let_def xp s
    by (simp only: yx bindE_Inr prod.case lp [unfolded ypts_def])
  then show ?thesis by blast
qed

text \<open>
  Claim C10, as amended. For \<open>Npoints \<ge> 2\<close>, every value that \<open>real_roots_approx\<close>
  returns is the image \<open>((xmax - xmin) v + (xmax + xmin)) / 2\<close> of a value \<open>v\<close> found at
  a pair of consecutive sample points \<open>cos (i \<pi> / Npoints)\<close> and
  \<open>cos ((i + 1) \<pi> / Npoints)\<close> at which the expansion changes its sign bit, and \<open>v\<close> is
  either a point of the closed interval between the two sample points, in which case the
  returned value lies in \<open>[xmin, xmax]\<close> when \<open>xmin \<le> xmax\<close>, or the sentinel \<open>10\<^sup>9\<^sup>9\<close>.
\<close>

theorem approx_roots_bracketed_or_sentinel:
  assumes "2 \<le> Npoints" and "real_roots_approx solve e Npoints = Inr (roots, e')"
    and "x \<in> set roots"
  shows "\<exists>i v. i + 1 < Npoints
           \<and> signbit (spec_canonical_sum (m_c e) (cos (real i * pi / real Npoints)))
               \<noteq> signbit (spec_canonical_sum (m_c e) (cos (real (i + 1) * pi / real Npoints)))
           \<and> x = spec_real_world (m_xmin e) (m_xmax e) v
           \<and> (v = 10 ^ 99
               \<or> (is_in_closed_range (cos (real i * pi / real Npoints))
                     (cos (real (i + 1) * pi / real Npoints)) v
                  \<and> (m_xmin e \<le> m_xmax e \<longrightarrow> m_xmin e \<le> x \<and> x \<le> m_xmax e)))"
proof -
  from real_roots_approx_Inr [OF assms(2,1,3)]
  obtain i v where iv: "i + 1 < Npoints"
    "signbit (spec_canonical_sum (m_c e) (cos (real i * pi / real Npoints)))
       \<noteq> signbit (spec_canonical_sum (m_c e) (cos (real (i + 1) * pi / real Npoints)))"
    "x = spec_real_world (m_xmin e) (m_xmax e) v"
    "v = 10 ^ 99 \<or> is_in_closed_range (cos (real i * pi / real Npoints))
                     (cos (real (i + 1) * pi / real Npoints)) v"
    by blast
  have "m_xmin e \<le> x \<and> x \<le> m_xmax e"
    if "is_in_closed_range (cos (real i * pi / real Npoints))
          (cos (real (i + 1) * pi / real Npoints)) v" "m_xmin e \<le> m_xmax e"
    using real_world_in_domain [OF that(2)] in_closed_range_cos [OF that(1)] iv(3) by simp
  then show ?thesis using iv by blast
qed

lemma sqrt_quarter: "sqrt (1 / 4) = 1 / 2"
  by (rule real_sqrt_unique) (simp_all add: power2_eq_square)

lemma sqrt_25_quarters: "sqrt (25 / 4) = 5 / 2"
  by (rule real_sqrt_unique) (simp_all add: power2_eq_square)

lemma xpts_two: "map (\<lambda>v. cos (v * pi / real 2)) (LinSpaced (2 + 1) 0 (real 2)) = [1, 0, - 1]"
  by (simp add: LinSpaced_def upt_rec)

lemma for_loop_once: "for_loop 0 1 body s = body 0 s"
  by (subst for_loop.simps, cases "body 0 s") (simp_all add: for_loop_empty)

lemma real_roots_approx_two:
  assumes "2 \<le> length (m_c e)"
  shows "\<exists>e'. real_roots_approx solve e 2
         = bindE (approx_step solve e [1, 0, - 1] (map (spec_canonical_sum (m_c e)) [1, 0, - 1]) 0 [])
             (\<lambda>roots. Inr (roots, e'))"
proof -
  from y_xscaled_eq [OF assms, of "[1, 0, - 1]"] obtain A where
    A: "y_xscaled e [1, 0, - 1] = Inr (map (spec_canonical_sum (m_c e)) [1, 0, - 1],
           e\<lparr>m_recurrence_buffer_matrix := A\<rparr>)"
    by blast
  have s: "size_t_sub 2 1 = 1" by simp
  have "real_roots_approx solve e 2
         = bindE (approx_step solve e [1, 0, - 1] (map (spec_canonical_sum (m_c e)) [1, 0, - 1]) 0 [])
             (\<lambda>roots. Inr (roots, e\<lparr>m_recurrence_buffer_matrix := A\<rparr>))"
    unfolding real_roots_approx_def Let_def xpts_two s
    by (simp only: A bindE_Inr prod.case for_loop_once)
  then show ?thesis by blast
qed

lemma canonical_sum_2: "spec_canonical_sum [a, b] t = a + b * t"
  by (simp add: spec_canonical_sum_def lessThan_Suc eval_nat_numeral)

lemma canonical_sum_3:
  "spec_canonical_sum [a, b, c] t = a + b * t + c * (2 * t * t - 1)"
  by (simp add: spec_canonical_sum_def lessThan_Suc eval_nat_numeral)

text \<open>
  Claim C10 as stated (no sentinel and no value outside \<open>[xmin, xmax]\<close> is returned)
  fails on \<open>[-1, 1]\<close> with \<open>Npoints = 2\<close>, where the sample points are \<open>1\<close>, \<open>0\<close> and
  \<open>- 1\<close> and the only bracket examined is \<open>[0, 1]\<close>.
  \<^item> The linear expansion \<open>- 1/2 T\<^sub>0 + T\<^sub>1\<close> takes the values \<open>1/2\<close>, \<open>- 1/2\<close> and
    \<open>- 3/2\<close>. The fitted quadratic has \<open>a = 0\<close>, both quotients by \<open>2 a\<close> are not finite,
    neither is in the bracket, and the last branch of the selection yields the sentinel.
  \<^item> The expansion \<open>- T\<^sub>0 + 3/2 T\<^sub>1 - 1/2 T\<^sub>2\<close>, that is \<open>- (x - 1) (x - 1/2)\<close>, takes the
    values \<open>0\<close>, \<open>- 1/2\<close> and \<open>- 3\<close>. The fitted quadratic is the expansion itself, both
    of its roots, \<open>1/2\<close> and \<open>1\<close>, are in the bracket, and the same branch is taken.
  In both cases \<open>10\<^sup>9\<^sup>9\<close> is returned as a root, far outside \<open>[-1, 1]\<close>.
\<close>

theorem approx_root_sentinel_returned:
  "map_sum id fst (real_roots_approx exact_solve3 (ChebyshevExpansion [- (1 / 2), 1] (- 1) 1) 2)
     = Inr [10 ^ 99]
   \<and> map_sum id fst
         (real_roots_approx exact_solve3 (ChebyshevExpansion [- 1, 3 / 2, - (1 / 2)] (- 1) 1) 2)
     = Inr [10 ^ 99]
   \<and> m_xmax (ChebyshevExpansion [- (1 / 2), 1] (- 1) 1) = 1
   \<and> m_xmax (ChebyshevExpansion [- 1, 3 / 2, - (1 / 2)] (- 1) 1) = 1
   \<and> \<not> (10 ^ 99 \<le> (1::real))"
proof -
  let ?l = "ChebyshevExpansion [- (1 / 2), 1] (- 1) 1"
  let ?e = "ChebyshevExpansion [- 1, 3 / 2, - (1 / 2)] (- 1) 1"
  have labc: "exact_solve3 (fit_matrix 1 0 (- 1)) [1 / 2, - (1 / 2), - (3 / 2)] = [0, 1, - (1 / 2)]"
    by (simp add: exact_solve3_def fit_matrix_def coeff_def det3_def)
  have lq: "quadratic_root s 0 1 (- (1 / 2)) = None" for s
    by (simp add: quadratic_root_def)
  have lsel: "select_xscaled 1 0 None None = 10 ^ 99"
    by (simp add: select_xscaled_def in_closed_range_opt_def)
  have lfr: "fitted_root exact_solve3 ?l [1, 0, - 1] [1 / 2, - (1 / 2), - (3 / 2)] 0 = Inr (10 ^ 99)"
    by (simp add: fitted_root_def v_read_def Let_def labc lq lsel)
  have lst: "approx_step exact_solve3 ?l [1, 0, - 1] [1 / 2, - (1 / 2), - (3 / 2)] 0 []
             = Inr [10 ^ 99]"
    by (simp add: approx_step_def v_read_def signbit_def lfr)
  have lys: "map (spec_canonical_sum (m_c ?l)) [1, 0, - 1] = [1 / 2, - (1 / 2), - (3 / 2)]"
    by (simp add: canonical_sum_2)
  from real_roots_approx_two [of ?l exact_solve3]
  have lin: "\<exists>e'. real_roots_approx exact_solve3 ?l 2 = Inr ([10 ^ 99], e')"
    unfolding lys lst by simp
  have abc: "exact_solve3 (fit_matrix 1 0 (- 1)) [0, - (1 / 2), - 3] = [- 1, 3 / 2, - (1 / 2)]"
    by (simp add: exact_solve3_def fit_matrix_def coeff_def det3_def)
  have q1: "quadratic_root 1 (- 1) (3 / 2) (- (1 / 2)) = Some (1 / 2)"
    by (simp add: quadratic_root_def sqrt_quarter)
  have q2: "quadratic_root (- 1) (- 1) (3 / 2) (- (1 / 2)) = Some 1"
    by (simp add: quadratic_root_def sqrt_quarter)
  have sel: "select_xscaled 1 0 (Some (1 / 2)) (Some 1) = 10 ^ 99"
    by (simp add: select_xscaled_def in_closed_range_opt_def is_in_closed_range_def)
  have fr: "fitted_root exact_solve3 ?e [1, 0, - 1] [0, - (1 / 2), - 3] 0 = Inr (10 ^ 99)"
    by (simp add: fitted_root_def v_read_def Let_def abc q1 q2 sel)
  have st: "approx_step exact_solve3 ?e [1, 0, - 1] [0, - (1 / 2), - 3] 0 [] = Inr [10 ^ 99]"
    by (simp add: approx_step_def v_read_def signbit_def fr)
  have ys: "map (spec_canonical_sum (m_c ?e)) [1, 0, - 1] = [0, - (1 / 2), - 3]"
    by (simp add: canonical_sum_3)
  from real_roots_approx_two [of ?e exact_solve3]
  have quad: "\<exists>e'. real_roots_approx exact_solve3 ?e 2 = Inr ([10 ^ 99], e')"
    unfolding ys st by simp
  show ?thesis using lin quad by auto
qed

text \<open>
  An instance: \<open>(x - 1/2) (x + 2)\<close> has one root in the bracket \<open>[0, 1]\<close>, and
  \<open>real_roots_approx\<close> returns it.
\<close>

theorem approx_roots_bracketed_or_sentinel_witness:
  "\<exists>e'. (2::nat) \<le> 2
     \<and> real_roots_approx exact_solve3 (ChebyshevExpansion [- (1 / 2), 3 / 2, 1 / 2] (- 1) 1) 2
         = Inr ([1 / 2], e')
     \<and> 1 / 2 \<in> set [1 / 2 :: real]
     \<and> (\<exists>i v. i + 1 < (2::nat)
           \<and> signbit (spec_canonical_sum [- (1 / 2), 3 / 2, 1 / 2] (cos (real i * pi / real 2)))
               \<noteq> signbit (spec_canonical_sum [- (1 / 2), 3 / 2, 1 / 2] (cos (real (i + 1) * pi / real 2)))
           \<and> 1 / 2 = spec_real_world (- 1) 1 v
           \<and> (v = 10 ^ 99
               \<or> (is_in_closed_range (cos (real i * pi / real 2)) (cos (real (i + 1) * pi / real 2)) v
                  \<and> - 1 \<le> (1 / 2 :: real) \<and> (1 / 2 :: real) \<le> 1)))"
proof -
  let ?e = "ChebyshevExpansion [- (1 / 2), 3 / 2, 1 / 2] (- 1) 1"
  have abc: "exact_solve3 (fit_matrix 1 0 (- 1)) [3 / 2, - 1, - (3 / 2)] = [1, 3 / 2, - 1]"
    by (simp add: exact_solve3_def fit_matrix_def coeff_def det3_def)
  have q1: "quadratic_root 1 1 (3 / 2) (- 1) = Some (1 / 2)"
    by (simp add: quadratic_root_def sqrt_25_quarters)
  have q2: "quadratic_root (- 1) 1 (3 / 2) (- 1) = Some (- 2)"
    by (simp add: quadratic_root_def sqrt_25_quarters)
  have sel: "select_xscaled 1 0 (Some (1 / 2)) (Some (- 2)) = 1 / 2"
    by (simp add: select_xscaled_def in_closed_range_opt_def is_in_closed_range_def)
  have fr: "fitted_root exact_solve3 ?e [1, 0, - 1] [3 / 2, - 1, - (3 / 2)] 0 = Inr (1 / 2)"
    by (simp add: fitted_root_def v_read_def Let_def abc q1 q2 sel)
  have st: "approx_step exact_solve3 ?e [1, 0, - 1] [3 / 2, - 1, - (3 / 2)] 0 [] = Inr [1 / 2]"
    by (simp add: approx_step_def v_read_def signbit_def fr)
  have ys: "map (spec_canonical_sum (m_c ?e)) [1, 0, - 1] = [3 / 2, - 1, - (3 / 2)]"
    by (simp add: canonical_sum_3)
  from real_roots_approx_two [of ?e exact_solve3]
  obtain e' where e': "real_roots_approx exact_solve3 ?e 2 = Inr ([1 / 2], e')"
    unfolding ys st by auto
  from approx_roots_bracketed_or_sentinel [OF _ e', of "1 / 2"]
  show ?thesis using e' by auto
qed

section \<open>The affine map of the domain\<close>

lemma y_double_iff:
  "y_double e x = Inr (r, e') \<longleftrightarrow>
     2 \<le> length (m_c e) \<and> length (m_recurrence_buffer e) = length (m_c e)
     \<and> r = spec_canonical_sum (m_c e) (spec_xscaled (m_xmin e) (m_xmax e) x)
     \<and> e' = e\<lparr>m_recurrence_buffer :=
                 map (\<lambda>k. chebyshev_T k (spec_xscaled (m_xmin e) (m_xmax e) x))
                   [0..<length (m_c e)]\<rparr>"
proof
  assume ok: "y_double e x = Inr (r, e')"
  from y_double_Inr_D [OF ok] have "2 \<le> length (m_c e)"
    "length (m_recurrence_buffer e) = length (m_c e)" by simp_all
  from y_double_eq [OF this, of x] ok this
  show "2 \<le> length (m_c e) \<and> length (m_recurrence_buffer e) = length (m_c e)
     \<and> r = spec_canonical_sum (m_c e) (spec_xscaled (m_xmin e) (m_xmax e) x)
     \<and> e' = e\<lparr>m_recurrence_buffer :=
                 map (\<lambda>k. chebyshev_T k (spec_xscaled (m_xmin e) (m_xmax e) x))
                   [0..<length (m_c e)]\<rparr>"
    by simp
next
  assume "2 \<le> length (m_c e) \<and> length (m_recurrence_buffer e) = length (m_c e)
     \<and> r = spec_canonical_sum (m_c e) (spec_xscaled (m_xmin e) (m_xmax e) x)
     \<and> e' = e\<lparr>m_recurrence_buffer :=
                 map (\<lambda>k. chebyshev_T k (spec_xscaled (m_xmin e) (m_xmax e) x))
                   [0..<length (m_c e)]\<rparr>"
  then show "y_double e x = Inr (r, e')"
    using y_double_eq [of e x] by simp
qed

lemma y_vectype_iff:
  "(\<exists>e'. y_vectype e xs = Inr (rs, e')) \<longleftrightarrow>
     2 \<le> length (m_c e)
     \<and> rs = map (\<lambda>x. spec_canonical_sum (m_c e) (spec_xscaled (m_xmin e) (m_xmax e) x)) xs"
proof
  let ?xs = "map (\<lambda>xi. (2 * xi - (m_xmax e + m_xmin e)) / (m_xmax e - m_xmin e)) xs"
  assume "\<exists>e'. y_vectype e xs = Inr (rs, e')"
  then obtain e' where ok: "y_xscaled e ?xs = Inr (rs, e')"
    by (auto simp add: y_vectype_def)
  from y_xscaled_Inr_D [OF ok] have L: "2 \<le> length (m_c e)" .
  from y_xscaled_eq [OF L, of ?xs] ok
  have "rs = map (spec_canonical_sum (m_c e)) ?xs" by auto
  then show "2 \<le> length (m_c e)
     \<and> rs = map (\<lambda>x. spec_canonical_sum (m_c e) (spec_xscaled (m_xmin e) (m_xmax e) x)) xs"
    using L by (simp add: spec_xscaled_def comp_def)
next
  let ?xs = "map (\<lambda>xi. (2 * xi - (m_xmax e + m_xmin e)) / (m_xmax e - m_xmin e)) xs"
  assume a: "2 \<le> length (m_c e)
     \<and> rs = map (\<lambda>x. spec_canonical_sum (m_c e) (spec_xscaled (m_xmin e) (m_xmax e) x)) xs"
  then have "2 \<le> length (m_c e)" by simp
  from y_xscaled_eq [OF this, of ?xs] a
  show "\<exists>e'. y_vectype e xs = Inr (rs, e')"
    by (auto simp add: y_vectype_def spec_xscaled_def comp_def)
qed

lemma real_roots_Inr:
  "real_roots eigenvalues e only_in_domain = Inr roots \<longleftrightarrow>
     (\<exists>A. companion_matrix e = Inr A
        \<and> roots = spec_real_roots (m_xmin e) (m_xmax e) only_in_domain (eigenvalues A))"
  by (auto simp add: real_roots_eq bindE_eq_Inr)

text \<open>
  The approximate roots on \<open>[xmin, xmax]\<close> are the images, under
  \<open>x = ((xmax - xmin) xscaled + (xmax + xmin)) / 2\<close>, of the approximate roots of the same
  coefficients on the canonical domain \<open>[-1, 1]\<close>, where this map is the identity;
  and the routine fails on the one domain exactly when it fails on the other.
\<close>

lemma fitted_root_maps_back:
  "fitted_root solve e xpts ypts i
   = map_sum id (spec_real_world (m_xmin e) (m_xmax e))
       (fitted_root solve (e\<lparr>m_xmin := - 1, m_xmax := 1\<rparr>) xpts ypts i)"
  by (simp add: fitted_root_def Let_def map_sum_bindE spec_real_world_def)

lemma approx_step_maps_back:
  "approx_step solve e xpts ypts i (map (spec_real_world (m_xmin e) (m_xmax e)) roots)
   = map_sum id (map (spec_real_world (m_xmin e) (m_xmax e)))
       (approx_step solve (e\<lparr>m_xmin := - 1, m_xmax := 1\<rparr>) xpts ypts i roots)"
proof -
  have "bindE (fitted_root solve e xpts ypts i)
          (\<lambda>x. Inr (map (spec_real_world (m_xmin e) (m_xmax e)) roots @ [x]))
        = map_sum id (map (spec_real_world (m_xmin e) (m_xmax e)))
            (bindE (fitted_root solve (e\<lparr>m_xmin := - 1, m_xmax := 1\<rparr>) xpts ypts i)
               (\<lambda>x. Inr (roots @ [x])))"
    by (subst fitted_root_maps_back,
        cases "fitted_root solve (e\<lparr>m_xmin := - 1, m_xmax := 1\<rparr>) xpts ypts i") simp_all
  then show ?thesis
    unfolding approx_step_def
    by (cases "v_read ypts i"; cases "v_read ypts (i + 1)") simp_all
qed

lemma y_xscaled_domain:
  "map_sum id fst (y_xscaled (e\<lparr>m_xmin := a, m_xmax := b\<rparr>) xs)
   = map_sum id fst (y_xscaled e xs)"
  by (simp add: y_xscaled_def Let_def map_sum_bindE)

lemma real_roots_approx_maps_back:
  "map_sum id fst (real_roots_approx solve e Npoints)
   = map_sum id (map (spec_real_world (m_xmin e) (m_xmax e)))
       (map_sum id fst (real_roots_approx solve (e\<lparr>m_xmin := - 1, m_xmax := 1\<rparr>) Npoints))"
proof -
  let ?g = "spec_real_world (m_xmin e) (m_xmax e)"
  let ?ec = "e\<lparr>m_xmin := - 1, m_xmax := 1\<rparr>"
  let ?xs = "map (\<lambda>v. cos (v * pi / real Npoints)) (LinSpaced (Npoints + 1) 0 (real Npoints))"
  have loop: "for_loop 0 hi (approx_step solve e ?xs ypts) []
        = map_sum id (map ?g) (for_loop 0 hi (approx_step solve ?ec ?xs ypts) [])" for hi ypts
    using for_loop_map_sum [where h = "map ?g" and s = "[]"
        and body = "approx_step solve e ?xs ypts" and body' = "approx_step solve ?ec ?xs ypts"]
    by (simp add: approx_step_maps_back)
  have same: "map_sum id fst (y_xscaled ?ec ?xs) = map_sum id fst (y_xscaled e ?xs)"
    by (rule y_xscaled_domain)
  show ?thesis
  proof (cases "y_xscaled e ?xs")
    case (Inl err)
    with same have "y_xscaled ?ec ?xs = Inl err"
      by (cases "y_xscaled ?ec ?xs") simp_all
    with Inl show ?thesis by (simp add: real_roots_approx_def Let_def)
  next
    case (Inr p)
    obtain ypts e' where p: "p = (ypts, e')" by (cases p)
    from same Inr p obtain e'' where c: "y_xscaled ?ec ?xs = Inr (ypts, e'')"
      by (cases "y_xscaled ?ec ?xs") auto
    show ?thesis
      using Inr p c loop [of "size_t_sub Npoints 1" ypts]
      by (cases "for_loop 0 (size_t_sub Npoints 1) (approx_step solve ?ec ?xs ypts) []")
        (simp_all add: real_roots_approx_def Let_def)
  qed
qed

text \<open>
  An instance: \<open>1 + 2 T\<^sub>1 + 4 T\<^sub>2\<close> on \<open>[0, 10]\<close> at \<open>x = 5/2\<close> and \<open>x = 15/2\<close>, that is at
  \<open>xscaled = - 1/2\<close> and \<open>xscaled = 1/2\<close>.
\<close>

lemma evaluation_on_0_10:
  "spec_xscaled 0 10 (5 / 2) = - (1 / 2) \<and> spec_xscaled 0 10 (15 / 2) = 1 / 2
   \<and> (\<exists>e'. y_double (ChebyshevExpansion [1, 2, 4] 0 10) (5 / 2) = Inr (- 2, e'))
   \<and> (\<exists>e'. y_vectype (ChebyshevExpansion [1, 2, 4] 0 10) [5 / 2, 15 / 2] = Inr ([- 2, 0], e'))"
proof -
  let ?e = "ChebyshevExpansion [1, 2, 4] 0 10"
  have sx: "spec_xscaled 0 10 (5 / 2) = - (1 / 2)" "spec_xscaled 0 10 (15 / 2) = 1 / 2"
    by (simp_all add: spec_xscaled_def)
  have "\<exists>e'. y_double ?e (5 / 2) = Inr (- 2, e')"
    using y_double_iff [of ?e "5 / 2" "- 2"] by (simp add: sx canonical_sum_3)
  moreover have "\<exists>e'. y_vectype ?e [5 / 2, 15 / 2] = Inr ([- 2, 0], e')"
    using y_vectype_iff [of ?e "[5 / 2, 15 / 2]" "[- 2, 0]"] by (simp add: sx canonical_sum_3)
  ultimately show ?thesis using sx by blast
qed

text \<open>
  Claim C5 (every evaluator maps \<open>x\<close> to \<open>xscaled = (2 x - (xmax + xmin)) / (xmax - xmin)\<close>,
  every root routine maps back by the inverse, and consequently the evaluation of an
  expansion at \<open>x\<close> is its sum in the canonical basis at \<open>xscaled\<close>) against main.cpp.
  By the lemmas above the two evaluators and the two root routines apply the maps, and
  an expansion with at least two coefficients evaluates to its canonical sum. A constant
  expansion does not: on \<open>[3]\<close> over \<open>[2, 6]\<close> at \<open>x = 5\<close>, where \<open>xscaled = 1/2\<close> and the
  canonical sum is \<open>3\<close>, the scalar evaluation writes \<open>o(1) = xscaled\<close> into a buffer
  of length 1 and the batched one assigns \<open>xscaled\<close> to column 1 of a matrix with one
  column, so neither returns a value. The test \<open>Constant value 1.0\<close> expects the
  constant.
\<close>

theorem constant_expansion_misses_canonical_sum:
  "spec_xscaled 2 6 5 = 1 / 2
   \<and> spec_canonical_sum (m_c (ChebyshevExpansion [3] 2 6)) (spec_xscaled 2 6 5) = 3
   \<and> y_double (ChebyshevExpansion [3] 2 6) 5 = Inl EigenAssert
   \<and> y_vectype (ChebyshevExpansion [3] 2 6) [5] = Inl EigenAssert"
  by (simp add: y_double_constant y_vectype_def y_xscaled_constant spec_xscaled_def
      spec_canonical_sum_def)

section \<open>The product\<close>

lemma length_add_at [simp]: "length (add_at v k x) = length v"
  by (simp add: add_at_def)

lemma nth_add_at:
  assumes "k < length v" and "m < length v"
  shows "add_at v k x ! m = (if m = k then v ! m + x else v ! m)"
  using assms by (simp add: add_at_def nth_list_update)

lemma fold_product_pair_step:
  assumes "\<And>j. j \<in> set js \<Longrightarrow> i + j < length out \<and> (if j \<le> i then i - j else j - i) < length out"
  shows "length (fold (product_pair_step c1 c2 i) js out) = length out
         \<and> (\<forall>m<length out. fold (product_pair_step c1 c2 i) js out ! m
               = out ! m + (\<Sum>j\<leftarrow>js. spec_pair_contribution c1 c2 m i j))"
  using assms
proof (induction js arbitrary: out)
  case Nil
  then show ?case by simp
next
  case (Cons j js)
  let ?o = "product_pair_step c1 c2 i j out"
  have b: "i + j < length out" "(if j \<le> i then i - j else j - i) < length out"
    using Cons.prems [of j] by simp_all
  have len: "length ?o = length out" by (simp add: product_pair_step_def)
  have one: "?o ! m = out ! m + spec_pair_contribution c1 c2 m i j"
    if "m < length out" for m
    using that b by (simp add: product_pair_step_def nth_add_at spec_pair_contribution_def)
  have "\<And>j'. j' \<in> set js \<Longrightarrow>
      i + j' < length ?o \<and> (if j' \<le> i then i - j' else j' - i) < length ?o"
    using Cons.prems len by simp
  from Cons.IH [OF this] len one show ?case by simp
qed

lemma product_row_step_nth:
  assumes "i + length c2 \<le> length out" and "length c2 \<le> length out" and "i < length out"
  shows "length (product_row_step c1 c2 i out) = length out
         \<and> (\<forall>m<length out. product_row_step c1 c2 i out ! m
               = out ! m + (\<Sum>j<length c2. spec_pair_contribution c1 c2 m i j))"
proof -
  have b: "i + j < length out \<and> (if j \<le> i then i - j else j - i) < length out"
    if "j \<in> set [0..<length c2]" for j
    using that assms by auto
  from fold_product_pair_step [of "[0..<length c2]" i out c1 c2, OF b]
  show ?thesis
    by (simp add: product_row_step_def sum_list_map_upt)
qed

lemma fold_product_row_step:
  assumes "\<And>i. i \<in> set is \<Longrightarrow> i + length c2 \<le> length out \<and> i < length out"
    and "length c2 \<le> length out"
  shows "length (fold (product_row_step c1 c2) is out) = length out
         \<and> (\<forall>m<length out. fold (product_row_step c1 c2) is out ! m
               = out ! m + (\<Sum>i\<leftarrow>is. \<Sum>j<length c2. spec_pair_contribution c1 c2 m i j))"
  using assms
proof (induction "is" arbitrary: out)
  case Nil
  then show ?case by simp
next
  case (Cons i "is")
  let ?o = "product_row_step c1 c2 i out"
  from Cons.prems(1) [of i] have b: "i + length c2 \<le> length out" "i < length out" by simp_all
  from product_row_step_nth [OF b(1) Cons.prems(2) b(2), of c1]
  have len: "length ?o = length out"
    and one: "\<And>m. m < length out \<Longrightarrow>
        ?o ! m = out ! m + (\<Sum>j<length c2. spec_pair_contribution c1 c2 m i j)"
    by simp_all
  have p: "\<And>i'. i' \<in> set is \<Longrightarrow> i' + length c2 \<le> length ?o \<and> i' < length ?o"
    using Cons.prems(1) len by simp
  have q: "length c2 \<le> length ?o" using Cons.prems(2) len by simp
  from Cons.IH [OF p q] len one show ?case by simp
qed

lemma fold_product_row_step_Nil: "fold (product_row_step c1 []) is out = out"
  by (induction "is") (simp_all add: product_row_step_def)

lemma spec_product_coef_nth:
  "length (spec_product_coef c1 c2) = length c1 + length c2 - 1
   \<and> (\<forall>m<length c1 + length c2 - 1. spec_product_coef c1 c2 ! m
         = (\<Sum>i<length c1. \<Sum>j<length c2. spec_pair_contribution c1 c2 m i j))"
proof -
  let ?out = "replicate (length c1 + length c2 - 1) (0::real)"
  consider "c2 = []" | "c1 = []" | "c1 \<noteq> []" "c2 \<noteq> []" by blast
  then show ?thesis
  proof cases
    case 1
    then show ?thesis by (simp add: spec_product_coef_def fold_product_row_step_Nil)
  next
    case 2
    then show ?thesis by (simp add: spec_product_coef_def)
  next
    case 3
    have b: "i + length c2 \<le> length ?out \<and> i < length ?out"
      if "i \<in> set [0..<length c1]" for i
      using that 3 by (cases c2) auto
    have c: "length c2 \<le> length ?out" using 3 by (cases c1) auto
    from fold_product_row_step [of "[0..<length c1]" c2 ?out c1, OF b c]
    show ?thesis
      by (simp add: spec_product_coef_def sum_list_map_upt)
  qed
qed

lemma spec_pair_contribution_commute:
  "spec_pair_contribution c1 c2 m i j = spec_pair_contribution c2 c1 m j i"
  by (auto simp add: spec_pair_contribution_def add.commute mult.commute)

lemma spec_product_coef_commute: "spec_product_coef c1 c2 = spec_product_coef c2 c1"
proof (rule nth_equalityI)
  show "length (spec_product_coef c1 c2) = length (spec_product_coef c2 c1)"
    using spec_product_coef_nth [of c1 c2] spec_product_coef_nth [of c2 c1] by (simp add: add.commute)
next
  fix m assume "m < length (spec_product_coef c1 c2)"
  then have m: "m < length c1 + length c2 - 1" "m < length c2 + length c1 - 1"
    using spec_product_coef_nth [of c1 c2] by (simp_all add: add.commute)
  have "spec_product_coef c1 c2 ! m
        = (\<Sum>i<length c1. \<Sum>j<length c2. spec_pair_contribution c1 c2 m i j)"
    using spec_product_coef_nth [of c1 c2] m by simp
  also have "\<dots> = (\<Sum>j<length c2. \<Sum>i<length c1. spec_pair_contribution c1 c2 m i j)"
    by (rule sum.swap)
  also have "\<dots> = (\<Sum>j<length c2. \<Sum>i<length c1. spec_pair_contribution c2 c1 m j i)"
    by (simp add: spec_pair_contribution_commute [of c1 c2])
  also have "\<dots> = spec_product_coef c2 c1 ! m"
    using spec_product_coef_nth [of c2 c1] m by simp
  finally show "spec_product_coef c1 c2 ! m = spec_product_coef c2 c1 ! m" .
qed

text \<open>
  Claim C7, for the product as the specification describes it. The coefficient vector of
  \<open>A * B\<close> has the length \<open>len(a) + len(b) - 1\<close>; its coefficient \<open>m\<close> is the sum over
  all pairs \<open>(i, j)\<close> of \<open>a[i] b[j] / 2\<close> for \<open>i + j = m\<close> and of \<open>a[i] b[j] / 2\<close> for
  \<open>|i - j| = m\<close>; and \<open>A * B\<close> and \<open>B * A\<close> have the same coefficients.
\<close>

theorem product_is_chebyshev_convolution:
  "length (coef (operator_times_expansion A B)) = length (coef A) + length (coef B) - 1
   \<and> (\<forall>m<length (coef A) + length (coef B) - 1.
         coef (operator_times_expansion A B) ! m
         = (\<Sum>i<length (coef A). \<Sum>j<length (coef B).
              (if i + j = m then coef A ! i * coef B ! j / 2 else 0)
              + (if (if j \<le> i then i - j else j - i) = m then coef A ! i * coef B ! j / 2 else 0)))
   \<and> coef (operator_times_expansion A B) = coef (operator_times_expansion B A)"
proof -
  have c: "coef (operator_times_expansion A B) = spec_product_coef (coef A) (coef B)" for A B
    by (simp add: operator_times_expansion_def coef_def)
  have "length (spec_product_coef (coef A) (coef B)) = length (coef A) + length (coef B) - 1"
    using spec_product_coef_nth [of "coef A" "coef B"] by (rule conjunct1)
  moreover have "\<forall>m<length (coef A) + length (coef B) - 1.
         spec_product_coef (coef A) (coef B) ! m
         = (\<Sum>i<length (coef A). \<Sum>j<length (coef B).
              (if i + j = m then coef A ! i * coef B ! j / 2 else 0)
              + (if (if j \<le> i then i - j else j - i) = m then coef A ! i * coef B ! j / 2 else 0))"
    using spec_product_coef_nth [of "coef A" "coef B"]
    unfolding spec_pair_contribution_def by (rule conjunct2)
  moreover have "spec_product_coef (coef A) (coef B) = spec_product_coef (coef B) (coef A)"
    by (rule spec_product_coef_commute)
  ultimately show ?thesis unfolding c by blast
qed

lemma product_of_the_test:
  "spec_product_coef [1, 2, 3, 4] [1 / 10, 2 / 10, 3 / 10] = [3 / 4, 8 / 5, 6 / 5, 1, 17 / 20, 3 / 5]"
  by (simp add: spec_product_coef_def product_row_step_def product_pair_step_def add_at_def
      upt_rec)

text \<open>
  An instance: the product of \<open>[1, 2, 3, 4]\<close> and \<open>[0.1, 0.2, 0.3]\<close> of the test
  "Product of expansions", in both orders.
\<close>

theorem product_is_chebyshev_convolution_witness:
  "coef (operator_times_expansion (ChebyshevExpansion [1, 2, 3, 4] (- 1) 1)
           (ChebyshevExpansion [1 / 10, 2 / 10, 3 / 10] (- 1) 1))
     = [3 / 4, 8 / 5, 6 / 5, 1, 17 / 20, 3 / 5]
   \<and> coef (operator_times_expansion (ChebyshevExpansion [1 / 10, 2 / 10, 3 / 10] (- 1) 1)
             (ChebyshevExpansion [1, 2, 3, 4] (- 1) 1))
     = [3 / 4, 8 / 5, 6 / 5, 1, 17 / 20, 3 / 5]
   \<and> length (coef (operator_times_expansion (ChebyshevExpansion [1, 2, 3, 4] (- 1) 1)
           (ChebyshevExpansion [1 / 10, 2 / 10, 3 / 10] (- 1) 1))) = 4 + 3 - 1"
proof -
  let ?A = "ChebyshevExpansion [1, 2, 3, 4] (- 1) 1"
  let ?B = "ChebyshevExpansion [1 / 10, 2 / 10, 3 / 10] (- 1) 1"
  have AB: "coef (operator_times_expansion ?A ?B) = [3 / 4, 8 / 5, 6 / 5, 1, 17 / 20, 3 / 5]"
    using product_of_the_test by (simp add: operator_times_expansion_def coef_def)
  have "coef (operator_times_expansion ?A ?B) = coef (operator_times_expansion ?B ?A)"
    using product_is_chebyshev_convolution [of ?A ?B] by (rule conjunct2 [THEN conjunct2])
  then have BA: "coef (operator_times_expansion ?B ?A) = [3 / 4, 8 / 5, 6 / 5, 1, 17 / 20, 3 / 5]"
    unfolding AB by (rule sym)
  show ?thesis unfolding AB BA by simp
qed

end
